theory Spec2Isabelle
  imports Complex_Main
begin

section \<open>Strings\<close>

text \<open>
  A JavaScript string is a sequence of UTF-16 code units. It is modelled as the list of
  its code units, each a natural number, so that the placeholder U+2014 of
  \<open>formatFileSize\<close> and the Unicode white space that \<open>trim\<close> removes are single
  elements, as they are in the source. \<open>js\<close> turns an ASCII literal into such a list.
\<close>

type_synonym jsstring = "nat list"

definition js :: "string \<Rightarrow> jsstring" where
  "js s = map of_char s"

text \<open>
  \<open>String.prototype.trim\<close> removes the WhiteSpace and LineTerminator code points of
  ECMAScript from both ends: TAB, LF, VT, FF, CR, SP, NBSP, U+1680, U+2000 to U+200A,
  LS, PS, U+202F, U+205F, U+3000 and the BOM.
\<close>

definition isWhiteSpace :: "nat \<Rightarrow> bool" where
  "isWhiteSpace c \<longleftrightarrow>
     c = 0x09 \<or> c = 0x0A \<or> c = 0x0B \<or> c = 0x0C \<or> c = 0x0D \<or> c = 0x20 \<or> c = 0xA0 \<or>
     c = 0x1680 \<or> (0x2000 \<le> c \<and> c \<le> 0x200A) \<or> c = 0x2028 \<or> c = 0x2029 \<or>
     c = 0x202F \<or> c = 0x205F \<or> c = 0x3000 \<or> c = 0xFEFF"

definition trim :: "jsstring \<Rightarrow> jsstring" where
  "trim s = rev (dropWhile isWhiteSpace (rev (dropWhile isWhiteSpace s)))"

text \<open>The decimal digits of a natural number, as a template literal prints a count.\<close>

fun show_nat :: "nat \<Rightarrow> jsstring" where
  "show_nat n = (if n < 10 then [48 + n] else show_nat (n div 10) @ [48 + n mod 10])"

declare show_nat.simps [simp del]

section \<open>The data model of App.tsx\<close>

text \<open>
  An optional field of type \<open>number | null | undefined\<close> keeps its three forms.
\<close>

datatype 'a nullable = Undefined | Null | Present 'a

record ScanItem =
  project_path :: jsstring
  node_modules_path :: jsstring
  item_size :: "int nullable"

record ScanProgress =
  current_folder :: jsstring
  folders_scanned :: nat
  total_folders_estimated :: nat
  node_modules_found :: nat
  directories_skipped :: nat
  is_complete :: bool

record DriveInfo =
  drive_path :: jsstring
  drive_name :: jsstring

record DeleteResult =
  result_path :: jsstring
  success :: bool
  error_text :: "jsstring option"

datatype node_type = Folder | NodeModules

text \<open>
  The scalar fields of a \<open>TreeNode\<close>; \<open>children\<close> is kept apart, since it is a list of
  tree nodes in the React state and a list of object references while the tree is built.
\<close>

record TreeNode_fields =
  node_id :: jsstring
  node_name :: jsstring
  node_path :: jsstring
  node_kind :: node_type
  node_size :: "int nullable"
  isExpanded :: bool
  isSelected :: bool
  level :: nat

datatype TreeNode = TreeNode (props: TreeNode_fields) (children: "TreeNode list")

datatype ScanScope = ScopeFolder | ScopeDrive | ScopeEntire

datatype target_type = Single | Bulk

record DeleteTarget =
  target_kind :: target_type
  target_path :: "jsstring option"
  target_count :: "nat option"

text \<open>
  The component's state: one field per \<open>useState\<close>. A \<open>Set<string>\<close> is the list of
  its elements in insertion order, a \<open>Date\<close> its time in milliseconds.
\<close>

record AppState =
  scanScope :: ScanScope
  selectedFolder :: jsstring
  selectedDrive :: jsstring
  drives :: "DriveInfo list"
  includeSizes :: bool
  isScanning :: bool
  isDeleting :: bool
  scanProgress :: ScanProgress
  scanResults :: "ScanItem list"
  treeData :: "TreeNode list"
  selectedItems :: "jsstring list"
  showDeleteModal :: bool
  deleteTarget :: "DeleteTarget option"
  isDarkMode :: bool
  scanStartTime :: "nat option"
  scanDuration :: jsstring

text \<open>
  What a handler does besides updating the state: the commands it invokes on the
  engine, the dialogs it shows and the timers it starts.
\<close>

datatype command =
    list_drives
  | start_scan_with_progress "jsstring list" bool
  | delete_node_modules "jsstring list"

datatype effect =
    Invoke command
  | Alert jsstring
  | ConsoleError jsstring
  | SetTimeout nat

definition invoked :: "effect list \<Rightarrow> command list" where
  "invoked es = concat (map (\<lambda>e. case e of Invoke c \<Rightarrow> [c] | _ \<Rightarrow> []) es)"

section \<open>Starting a scan\<close>

definition initialProgress :: ScanProgress where
  "initialProgress =
     \<lparr>current_folder = js ''Starting scan...'', folders_scanned = 0,
      total_folders_estimated = 0, node_modules_found = 0, directories_skipped = 0,
      is_complete = False\<rparr>"

text \<open>The state of the component when it is mounted: the initial values of \<open>useState\<close>.\<close>

definition state0 :: AppState where
  "state0 =
     \<lparr>scanScope = ScopeFolder, selectedFolder = [], selectedDrive = [], drives = [],
      includeSizes = False, isScanning = False, isDeleting = False,
      scanProgress = initialProgress, scanResults = [], treeData = [],
      selectedItems = [], showDeleteModal = False, deleteTarget = None,
      isDarkMode = False, scanStartTime = None, scanDuration = []\<rparr>"

text \<open>\<open>loadDrives\<close>, once \<open>list_drives\<close> has answered.\<close>

definition loadDrives_resolved :: "DriveInfo list \<Rightarrow> AppState \<Rightarrow> AppState" where
  "loadDrives_resolved drivesList s = s\<lparr>drives := drivesList\<rparr>"

text \<open>
  The \<open>switch\<close> of \<open>handleStartScan\<close>: the message of the alert it returns after, or
  the roots.
\<close>

definition scan_roots :: "AppState \<Rightarrow> jsstring + jsstring list" where
  "scan_roots s =
     (case scanScope s of
        ScopeFolder \<Rightarrow>
          if trim (selectedFolder s) = [] then Inl (js ''Please select a folder to scan'')
          else Inr [trim (selectedFolder s)]
      | ScopeDrive \<Rightarrow>
          if selectedDrive s = [] then Inl (js ''Please select a drive to scan'')
          else Inr [selectedDrive s]
      | ScopeEntire \<Rightarrow> Inr (map drive_path (drives s)))"

text \<open>
  \<open>handleStartScan\<close> up to its \<open>await\<close>: the new state and the effects, in order.
  \<open>now\<close> is \<open>new Date()\<close>.
\<close>

definition handleStartScan :: "nat \<Rightarrow> AppState \<Rightarrow> AppState \<times> effect list" where
  "handleStartScan now s =
     (if isScanning s then (s, [])
      else case scan_roots s of
        Inl msg \<Rightarrow> (s, [Alert msg])
      | Inr roots \<Rightarrow>
          if length roots = 0 then (s, [Alert (js ''No valid scan targets selected'')])
          else
            (s\<lparr>isScanning := True, scanStartTime := Some now, scanResults := [],
               treeData := [], selectedItems := [], scanProgress := initialProgress\<rparr>,
             [Invoke (start_scan_with_progress roots (includeSizes s))]))"

text \<open>After the \<open>await\<close>: the command resolved with the matches, or it threw.\<close>

definition handleStartScan_resolved :: "ScanItem list \<Rightarrow> AppState \<Rightarrow> AppState" where
  "handleStartScan_resolved results s = s\<lparr>scanResults := results\<rparr>"


section \<open>The progress listener\<close>

definition scan_progress_listener :: "ScanProgress \<Rightarrow> AppState \<Rightarrow> AppState \<times> effect list" where
  "scan_progress_listener progress s =
     (let s1 = s\<lparr>scanProgress := progress\<rparr> in
      if is_complete progress then (s1\<lparr>isScanning := False\<rparr>, [SetTimeout 5000])
      else (s1, []))"


section \<open>Deleting\<close>

definition handleBulkDelete :: "AppState \<Rightarrow> AppState" where
  "handleBulkDelete s =
     (if length (selectedItems s) = 0 then s
      else s\<lparr>deleteTarget :=
                Some \<lparr>target_kind = Bulk, target_path = None,
                      target_count = Some (length (selectedItems s))\<rparr>,
             showDeleteModal := True\<rparr>)"

text \<open>The \<open>finally\<close> block of \<open>confirmDelete\<close>.\<close>

definition confirmDelete_finally :: "AppState \<Rightarrow> AppState" where
  "confirmDelete_finally s = s\<lparr>isDeleting := False, showDeleteModal := False, deleteTarget := None\<rparr>"

text \<open>The paths \<open>confirmDelete\<close> asks the engine to delete.\<close>

definition delete_paths :: "DeleteTarget \<Rightarrow> jsstring list \<Rightarrow> jsstring list" where
  "delete_paths t selected =
     (if target_kind t = Single \<and> target_path t \<noteq> None \<and> target_path t \<noteq> Some []
      then [the (target_path t)]
      else if target_kind t = Bulk then selected
      else [])"

text \<open>\<open>confirmDelete\<close> up to its \<open>await\<close>.\<close>

definition confirmDelete :: "AppState \<Rightarrow> AppState \<times> effect list" where
  "confirmDelete s =
     (case deleteTarget s of
        None \<Rightarrow> (s, [])
      | Some t \<Rightarrow>
          let s1 = s\<lparr>isDeleting := True\<rparr>;
              paths = delete_paths t (selectedItems s)
          in if length paths = 0 then (confirmDelete_finally s1, [])
             else (s1, [Invoke (delete_node_modules paths)]))"

text \<open>
  After the \<open>await\<close>, with the results of the batch: the entries whose path is in
  \<open>failedPaths\<close> leave \<open>scanResults\<close>, the selection is cleared, the summary is shown.
\<close>

definition failedPaths :: "DeleteResult list \<Rightarrow> jsstring set" where
  "failedPaths results = set (map result_path (filter (\<lambda>r. \<not> success r) results))"

definition confirmDelete_resolved :: "DeleteResult list \<Rightarrow> AppState \<Rightarrow> AppState \<times> effect list" where
  "confirmDelete_resolved results s =
     (let s1 = s\<lparr>scanResults :=
                   filter (\<lambda>item. node_modules_path item \<notin> failedPaths results)
                     (scanResults s)\<rparr>;
          s2 = s1\<lparr>selectedItems := []\<rparr>;
          successCount = length (filter (\<lambda>r. success r) results);
          failCount = length (filter (\<lambda>r. \<not> success r) results);
          msg = (if failCount > 0
                 then js ''Deleted '' @ show_nat successCount @ js '' folders successfully. ''
                      @ show_nat failCount @ js '' failed.''
                 else js ''Successfully deleted '' @ show_nat successCount @ js '' folders.'')
      in (confirmDelete_finally s2, [Alert msg]))"


section \<open>Displaying sizes and progress\<close>

text \<open>
  A byte count is an integer. Dividing it by 1024 is exact in binary floating point, and
  \<open>toFixed\<close> rounds the exact value of its argument, so the numbers of
  \<open>formatFileSize\<close> are modelled as rationals. (\<open>toFixed\<close> leaves the decimal
  notation at \<open>10^21\<close>, which no count of bytes divided by \<open>1024^4\<close> reaches.)
\<close>

definition units :: "jsstring list" where
  "units = [js ''B'', js ''KB'', js ''MB'', js ''GB'', js ''TB'']"

text \<open>The \<open>while\<close> loop of \<open>formatFileSize\<close>.\<close>

function scale_size :: "rat \<Rightarrow> nat \<Rightarrow> rat \<times> nat" where
  "scale_size sz unitIndex =
     (if sz \<ge> 1024 \<and> unitIndex < length units - 1
      then scale_size (sz / 1024) (unitIndex + 1)
      else (sz, unitIndex))"
  by pat_completeness auto
termination
  by (relation "measure (\<lambda>(sz, unitIndex). length units - 1 - unitIndex)") auto

declare scale_size.simps [simp del]

text \<open>
  \<open>x.toFixed(1)\<close>: the sign, then the integer \<open>n\<close> nearest to \<open>10 * |x|\<close> (the
  larger one of two), padded to two digits, with the point before its last digit.
\<close>

definition toFixed1 :: "rat \<Rightarrow> jsstring" where
  "toFixed1 x =
     (let s = (if x < 0 then js ''-'' else []);
          n = nat \<lfloor>\<bar>x\<bar> * 10 + 1 / 2\<rfloor>;
          m = show_nat n;
          m = (if length m \<le> 1 then js ''0'' @ m else m);
          k = length m
      in s @ take (k - 1) m @ js ''.'' @ drop (k - 1) m)"

definition formatFileSize :: "int nullable \<Rightarrow> jsstring" where
  "formatFileSize bytes =
     (case bytes of
        Null \<Rightarrow> [0x2014]
      | Undefined \<Rightarrow> [0x2014]
      | Present b \<Rightarrow>
          (case scale_size (of_int b) 0 of
             (sz, unitIndex) \<Rightarrow> toFixed1 sz @ js '' '' @ units ! unitIndex))"

text \<open>
  The only call of \<open>formatFileSize\<close> is in \<open>renderTreeNode\<close>, under the condition
  \<open>node.size !== null && node.size !== undefined && node.size > 0\<close>: the text of the
  size badge of a node, \<open>None\<close> when no badge is rendered.
\<close>

definition size_badge :: "int nullable \<Rightarrow> jsstring option" where
  "size_badge sz =
     (case sz of
        Present n \<Rightarrow> if n > 0 then Some (formatFileSize (Present n)) else None
      | _ \<Rightarrow> None)"

definition is_digit :: "nat \<Rightarrow> bool" where
  "is_digit c \<longleftrightarrow> 48 \<le> c \<and> c \<le> 57"

text \<open>
  The progress bar and the percentage beside it are rendered only when
  \<open>total_folders_estimated > 0\<close>; \<open>None\<close> is the element that is not rendered. The
  bar's width is \<open>Math.min(scanned / Math.max(estimated, 1) * 100, 100)\<close>, the text is
  \<open>Math.round(scanned / Math.max(estimated, 1) * 100)\<close>. \<open>Math.round\<close> rounds a half
  up, as \<open>round\<close> does.
\<close>

definition progressBarWidth :: "ScanProgress \<Rightarrow> rat option" where
  "progressBarWidth p =
     (if total_folders_estimated p > 0
      then Some (min (of_nat (folders_scanned p)
                        / of_nat (max (total_folders_estimated p) 1) * 100) 100)
      else None)"

definition progressPercent :: "ScanProgress \<Rightarrow> int option" where
  "progressPercent p =
     (if total_folders_estimated p > 0
      then Some (round (of_nat (folders_scanned p)
                          / of_nat (max (total_folders_estimated p) 1) * 100 :: rat))
      else None)"

section \<open>The deletion executor\<close>

text \<open>
  The engine's \<open>delete_node_modules\<close> command is not among the sources; App.tsx only
  invokes it. It is modelled from section 4.6 of the spec. The file system maps a path
  to the kind of entry there. The platform's trash facility is a parameter: it returns
  the file system after the move, or the reason it failed.
\<close>

datatype entry = File | Directory

type_synonym filesystem = "jsstring \<rightharpoonup> entry"

type_synonym trash_facility = "filesystem \<Rightarrow> jsstring \<Rightarrow> jsstring + filesystem"

definition is_separator :: "nat \<Rightarrow> bool" where
  "is_separator c \<longleftrightarrow> c = 0x2F \<or> c = 0x5C"

text \<open>
  Modelled from the spec: the basename of a path, which the engine's missing code
  computes (section 4.6 (a)). It is what follows the last separator, slash or backslash,
  the two separators App.tsx splits paths at.
\<close>

definition basename :: "jsstring \<Rightarrow> jsstring" where
  "basename p = rev (takeWhile (\<lambda>c. \<not> is_separator c) (rev p))"

definition refused :: "jsstring \<Rightarrow> jsstring \<Rightarrow> DeleteResult" where
  "refused p reason = \<lparr>result_path = p, success = False, error_text = Some reason\<rparr>"

text \<open>
  Modelled from the spec: the deletion executor's step for one path, missing from the
  sources (section 4.6). (a) The basename must be exactly \<open>node_modules\<close>, anything
  else is refused; (b) the path must exist and be a directory; (c) the directory is
  moved to the trash. A step that fails gives \<open>{success: false, error}\<close> for that path
  only, success gives \<open>{success: true}\<close>.
\<close>

definition delete_one :: "trash_facility \<Rightarrow> filesystem \<Rightarrow> jsstring \<Rightarrow> filesystem \<times> DeleteResult" where
  "delete_one trash fs p =
     (if basename p \<noteq> js ''node_modules''
      then (fs, refused p (js ''not a node_modules directory''))
      else if fs p \<noteq> Some Directory
      then (fs, refused p (js ''not found''))
      else case trash fs p of
        Inl reason \<Rightarrow> (fs, refused p reason)
      | Inr fs' \<Rightarrow> (fs', \<lparr>result_path = p, success = True, error_text = None\<rparr>))"

text \<open>
  Modelled from the spec: the engine's \<open>delete_node_modules\<close> command, missing from
  the sources (sections 4.6 and 6). The paths are processed one after the other, each on
  its own; there is one result per path.
\<close>

fun deletion_executor :: "trash_facility \<Rightarrow> filesystem \<Rightarrow> jsstring list \<Rightarrow> filesystem \<times> DeleteResult list" where
  "deletion_executor trash fs [] = (fs, [])"
| "deletion_executor trash fs (p # paths) =
     (case delete_one trash fs p of
        (fs1, r) \<Rightarrow>
          (case deletion_executor trash fs1 paths of
             (fs2, rs) \<Rightarrow> (fs2, r # rs)))"

text \<open>A trash facility that always succeeds: the entry leaves the file system.\<close>

definition simple_trash :: trash_facility where
  "simple_trash fs p = Inr (fs(p := None))"

section \<open>Building the tree\<close>

text \<open>
  \<open>buildTreeFromResults\<close> creates its nodes as objects, keeps references to them in
  \<open>treeMap\<close>, and pushes references into the \<open>children\<close> arrays of nodes it created
  before. The model has an explicit store: the heap is the list of the objects created
  so far, a reference is an index into it, and \<open>children\<close> and \<open>rootNodes\<close> are lists
  of references.
\<close>

record TreeNode_obj =
  obj_fields :: TreeNode_fields
  obj_children :: "nat list"

type_synonym heap = "TreeNode_obj list"

record build_state =
  heap :: heap
  treeMap :: "jsstring \<rightharpoonup> nat"
  rootNodes :: "nat list"

text \<open>
  \<open>s.split(/[\\\/]/)\<close>: the pieces between the separators, empty pieces included;
  the empty string gives one empty piece.
\<close>

definition is_sep :: "nat \<Rightarrow> bool" where
  "is_sep c \<longleftrightarrow> c = 0x5C \<or> c = 0x2F"

fun split_path :: "jsstring \<Rightarrow> jsstring list" where
  "split_path [] = [[]]"
| "split_path (c # cs) =
     (if is_sep c then [] # split_path cs
      else (case split_path cs of
              [] \<Rightarrow> [[c]]
            | part # parts \<Rightarrow> (c # part) # parts))"

text \<open>\<open>parts.join("/")\<close>.\<close>

fun join_slash :: "jsstring list \<Rightarrow> jsstring" where
  "join_slash [] = []"
| "join_slash [part] = part"
| "join_slash (part # parts) = part @ js ''/'' @ join_slash parts"

text \<open>
  \<open>[...results].sort(cmp)\<close>: the sort is stable, so with a consistent comparator its
  result is the one of a stable insertion sort. The comparator of the source is
  \<open>localeCompare\<close> on the project paths; its collation is the platform's, and it is a
  parameter of the model.
\<close>

fun insert_by :: "('a \<Rightarrow> 'a \<Rightarrow> int) \<Rightarrow> 'a \<Rightarrow> 'a list \<Rightarrow> 'a list" where
  "insert_by cmp x [] = [x]"
| "insert_by cmp x (y # ys) = (if cmp x y \<le> 0 then x # y # ys else y # insert_by cmp x ys)"

definition sort_by :: "('a \<Rightarrow> 'a \<Rightarrow> int) \<Rightarrow> 'a list \<Rightarrow> 'a list" where
  "sort_by cmp xs = foldr (insert_by cmp) xs []"

text \<open>\<open>parent.children.push(child)\<close>.\<close>

definition push_child :: "nat \<Rightarrow> nat \<Rightarrow> heap \<Rightarrow> heap" where
  "push_child parent child h =
     h[parent := (h ! parent)\<lparr>obj_children := obj_children (h ! parent) @ [child]\<rparr>]"

text \<open>
  The body of \<open>if (!treeMap.has(nodeId))\<close>: the new folder object, its entry in
  \<open>treeMap\<close>, and its reference pushed to the parent's children or to \<open>rootNodes\<close>.
\<close>

definition new_folder :: "jsstring list \<Rightarrow> nat \<Rightarrow> jsstring \<Rightarrow> jsstring \<Rightarrow> nat option \<Rightarrow> build_state \<Rightarrow> build_state" where
  "new_folder projectPathParts i part nodeId parentNode st =
     (let fullPath = join_slash (take (i + 1) projectPathParts);
          newNode = \<lparr>obj_fields =
                      \<lparr>node_id = nodeId, node_name = part, node_path = fullPath,
                       node_kind = Folder, node_size = Present 0, isExpanded = i < 2,
                       isSelected = False, level = i\<rparr>,
                     obj_children = []\<rparr>;
          ref = length (heap st);
          st1 = st\<lparr>heap := heap st @ [newNode], treeMap := (treeMap st)(nodeId \<mapsto> ref)\<rparr>
      in case parentNode of
           Some parent \<Rightarrow> st1\<lparr>heap := push_child parent ref (heap st1)\<rparr>
         | None \<Rightarrow> st1\<lparr>rootNodes := rootNodes st1 @ [ref]\<rparr>)"

text \<open>
  The inner \<open>for\<close> loop over \<open>projectPathParts\<close>, from index \<open>i\<close> on; the third
  argument is the parts from \<open>i\<close> on. It returns \<open>parentNode\<close> as the loop leaves it.
\<close>

fun build_folders :: "jsstring list \<Rightarrow> nat \<Rightarrow> jsstring list \<Rightarrow> jsstring \<Rightarrow> nat option \<Rightarrow> build_state \<Rightarrow> nat option \<times> build_state" where
  "build_folders projectPathParts i [] currentPath parentNode st = (parentNode, st)"
| "build_folders projectPathParts i (part # rest) currentPath parentNode st =
     (if part = [] then build_folders projectPathParts (i + 1) rest currentPath parentNode st
      else
        let currentPath' = (if currentPath \<noteq> [] then currentPath @ js ''/'' @ part else part);
            nodeId = js ''folder-'' @ currentPath';
            st' = (if treeMap st nodeId = None
                   then new_folder projectPathParts i part nodeId parentNode st
                   else st)
        in build_folders projectPathParts (i + 1) rest currentPath' (treeMap st' nodeId) st')"

text \<open>The body of the outer loop, for one scan item.\<close>

definition add_item :: "ScanItem \<Rightarrow> build_state \<Rightarrow> build_state" where
  "add_item item st =
     (let projectPathParts = split_path (project_path item) in
      case build_folders projectPathParts 0 projectPathParts [] None st of
        (parentNode, st1) \<Rightarrow>
          let nodeModulesId = js ''node_modules-'' @ node_modules_path item;
              nodeModulesNode =
                \<lparr>obj_fields =
                   \<lparr>node_id = nodeModulesId, node_name = js ''node_modules'',
                    node_path = node_modules_path item, node_kind = NodeModules,
                    node_size = item_size item, isExpanded = False, isSelected = False,
                    level = length projectPathParts\<rparr>,
                 obj_children = []\<rparr>;
              ref = length (heap st1);
              st2 = st1\<lparr>heap := heap st1 @ [nodeModulesNode],
                        treeMap := (treeMap st1)(nodeModulesId \<mapsto> ref)\<rparr>
          in case parentNode of
               Some parent \<Rightarrow> st2\<lparr>heap := push_child parent ref (heap st2)\<rparr>
             | None \<Rightarrow> st2)"

text \<open>
  \<open>calculateFolderSizes\<close>. Sizes are byte counts and are modelled as integers (a
  JavaScript number adds integers exactly below \<open>2^53\<close>); \<open>child.size || 0\<close> is 0 for
  an absent size. The function follows references, so it is defined as a partial
  function: \<open>None\<close> stands for a call that does not return.
\<close>

definition size_or_zero :: "int nullable \<Rightarrow> int" where
  "size_or_zero s = (case s of Present n \<Rightarrow> n | _ \<Rightarrow> 0)"

definition sum_child_sizes :: "heap \<Rightarrow> nat list \<Rightarrow> int" where
  "sum_child_sizes h cs = foldl (\<lambda>total child. total + size_or_zero (node_size (obj_fields (h ! child)))) 0 cs"

definition set_size :: "nat \<Rightarrow> int \<Rightarrow> heap \<Rightarrow> heap" where
  "set_size a n h = h[a := (h ! a)\<lparr>obj_fields := (obj_fields (h ! a))\<lparr>node_size := Present n\<rparr>\<rparr>]"

partial_function (option) calculateFolderSizes :: "heap \<Rightarrow> nat list \<Rightarrow> heap option" where
  "calculateFolderSizes h nodes =
     (case nodes of
        [] \<Rightarrow> Some h
      | node # rest \<Rightarrow>
          if node_kind (obj_fields (h ! node)) = Folder \<and> length (obj_children (h ! node)) > 0
          then Option.bind (calculateFolderSizes h (obj_children (h ! node)))
                 (\<lambda>h1. calculateFolderSizes
                          (set_size node (sum_child_sizes h1 (obj_children (h1 ! node))) h1) rest)
          else calculateFolderSizes h rest)"

text \<open>
  The value of the returned \<open>rootNodes\<close>: the trees that the references denote in the
  final heap.
\<close>

partial_function (option) tree_values :: "heap \<Rightarrow> nat list \<Rightarrow> TreeNode list option" where
  "tree_values h nodes =
     (case nodes of
        [] \<Rightarrow> Some []
      | node # rest \<Rightarrow>
          Option.bind (tree_values h (obj_children (h ! node)))
            (\<lambda>cs. Option.bind (tree_values h rest)
               (\<lambda>ts. Some (TreeNode (obj_fields (h ! node)) cs # ts))))"

declare calculateFolderSizes.simps [code]
declare tree_values.simps [code]

definition empty_build :: build_state where
  "empty_build = \<lparr>heap = [], treeMap = Map.empty, rootNodes = []\<rparr>"

definition buildTreeFromResults :: "(jsstring \<Rightarrow> jsstring \<Rightarrow> int) \<Rightarrow> ScanItem list \<Rightarrow> TreeNode list option" where
  "buildTreeFromResults localeCompare results =
     (let sortedResults = sort_by (\<lambda>a b. localeCompare (project_path a) (project_path b)) results;
          st = foldl (\<lambda>st item. add_item item st) empty_build sortedResults
      in Option.bind (calculateFolderSizes (heap st) (rootNodes st))
           (\<lambda>h. tree_values h (rootNodes st)))"

text \<open>A comparator to run the model with: the order of the code units.\<close>

fun compare_units :: "jsstring \<Rightarrow> jsstring \<Rightarrow> int" where
  "compare_units [] [] = 0"
| "compare_units [] (y # ys) = -1"
| "compare_units (x # xs) [] = 1"
| "compare_units (x # xs) (y # ys) = (if x < y then -1 else if y < x then 1 else compare_units xs ys)"

section \<open>The tree in the component's state\<close>

text \<open>All nodes of a tree, and of a list of trees.\<close>

fun nodes_of :: "TreeNode \<Rightarrow> TreeNode list" where
  "nodes_of (TreeNode f cs) = TreeNode f cs # concat (map nodes_of cs)"

definition all_nodes :: "TreeNode list \<Rightarrow> TreeNode list" where
  "all_nodes ts = concat (map nodes_of ts)"


definition with_selected :: "bool \<Rightarrow> TreeNode \<Rightarrow> TreeNode" where
  "with_selected b node = TreeNode ((props node)\<lparr>isSelected := b\<rparr>) (children node)"

lemma size_with_selected [simp]: "size (with_selected b node) = size node"
  by (cases node) (simp add: with_selected_def)


fun select_all_node :: "TreeNode \<Rightarrow> TreeNode" where
  "select_all_node (TreeNode f cs) =
     (if node_kind f = NodeModules then TreeNode (f\<lparr>isSelected := True\<rparr>) cs
      else if length cs > 0 then TreeNode (f\<lparr>isExpanded := True\<rparr>) (map select_all_node cs)
      else TreeNode f cs)"


text \<open>\<open>Set.add\<close> on a set kept in insertion order.\<close>

definition set_add :: "'a \<Rightarrow> 'a list \<Rightarrow> 'a list" where
  "set_add x xs = (if x \<in> set xs then xs else xs @ [x])"

text \<open>\<open>collectSelectedPaths\<close>, with the set \<open>selectedPaths\<close> it adds to.\<close>

fun collect_node :: "TreeNode \<Rightarrow> jsstring list \<Rightarrow> jsstring list" where
  "collect_node (TreeNode f cs) selectedPaths =
     (let selectedPaths' =
            (if isSelected f \<and> node_kind f = NodeModules
             then set_add (node_path f) selectedPaths else selectedPaths)
      in if length cs > 0 then fold collect_node cs selectedPaths' else selectedPaths')"

definition collectSelectedPaths :: "TreeNode list \<Rightarrow> jsstring list" where
  "collectSelectedPaths nodes = fold collect_node nodes []"


definition updateSelectedItems :: "TreeNode list option \<Rightarrow> AppState \<Rightarrow> AppState" where
  "updateSelectedItems currentTreeData s =
     (let dataToUse = (case currentTreeData of Some d \<Rightarrow> d | None \<Rightarrow> treeData s)
      in s\<lparr>selectedItems := collectSelectedPaths dataToUse\<rparr>)"



definition selectAllNodeModules :: "AppState \<Rightarrow> AppState" where
  "selectAllNodeModules s =
     (let updatedData = map select_all_node (treeData s)
      in (updateSelectedItems (Some updatedData) s)\<lparr>treeData := updatedData\<rparr>)"


text \<open>The effect that rebuilds the tree when \<open>scanResults\<close> has changed.\<close>

definition scanResults_effect :: "(jsstring \<Rightarrow> jsstring \<Rightarrow> int) \<Rightarrow> AppState \<Rightarrow> AppState option" where
  "scanResults_effect localeCompare s =
     (if length (scanResults s) > 0
      then map_option (\<lambda>tree. s\<lparr>treeData := tree\<rparr>) (buildTreeFromResults localeCompare (scanResults s))
      else Some (s\<lparr>treeData := []\<rparr>))"


section \<open>The component as a transition system\<close>


section \<open>Invariants of the build\<close>

text \<open>
  The predicates the proofs about \<open>buildTreeFromResults\<close> use. A heap is well formed
  when every reference in a \<open>children\<close> array points to an object created later than
  its parent and a \<open>node_modules\<close> object has no children.
\<close>

definition heap_ok :: "heap \<Rightarrow> bool" where
  "heap_ok h \<longleftrightarrow>
     (\<forall>a < length h.
        (\<forall>c \<in> set (obj_children (h ! a)). a < c \<and> c < length h) \<and>
        (node_kind (obj_fields (h ! a)) = NodeModules \<longrightarrow> obj_children (h ! a) = []))"

definition summed :: "heap \<Rightarrow> nat \<Rightarrow> bool" where
  "summed h a \<longleftrightarrow>
     (node_kind (obj_fields (h ! a)) = Folder \<and> obj_children (h ! a) \<noteq> [] \<longrightarrow>
      node_size (obj_fields (h ! a)) = Present (sum_child_sizes h (obj_children (h ! a))))"

definition closed :: "heap \<Rightarrow> nat set \<Rightarrow> bool" where
  "closed h S \<longleftrightarrow> (\<forall>a \<in> S. a < length h \<and> summed h a \<and> set (obj_children (h ! a)) \<subseteq> S)"

definition no_size :: "TreeNode_fields \<Rightarrow> TreeNode_fields" where
  "no_size f = f\<lparr>node_size := Undefined\<rparr>"

definition same_shape :: "heap \<Rightarrow> heap \<Rightarrow> bool" where
  "same_shape h h' \<longleftrightarrow>
     length h' = length h \<and>
     (\<forall>a < length h.
        obj_children (h' ! a) = obj_children (h ! a) \<and>
        no_size (obj_fields (h' ! a)) = no_size (obj_fields (h ! a)) \<and>
        (\<not> (node_kind (obj_fields (h ! a)) = Folder \<and> obj_children (h ! a) \<noteq> []) \<longrightarrow>
           h' ! a = h ! a))"

definition represents :: "heap \<Rightarrow> nat set \<Rightarrow> TreeNode \<Rightarrow> bool" where
  "represents h S t \<longleftrightarrow>
     (\<exists>a \<in> S. props t = obj_fields (h ! a) \<and>
        map props (children t) = map (\<lambda>c. obj_fields (h ! c)) (obj_children (h ! a)))"

definition node_ok :: "ScanItem set \<Rightarrow> TreeNode_fields \<Rightarrow> bool" where
  "node_ok items f \<longleftrightarrow>
     (case node_kind f of
        Folder \<Rightarrow> (\<exists>p. node_id f = js ''folder-'' @ p) \<and> node_size f = Present 0
      | NodeModules \<Rightarrow>
          (\<exists>p. node_id f = js ''node_modules-'' @ p) \<and>
          (\<exists>item \<in> items. node_path f = node_modules_path item \<and> node_size f = item_size item))"

definition parent_ok :: "heap \<Rightarrow> nat option \<Rightarrow> bool" where
  "parent_ok h parentNode \<longleftrightarrow>
     (case parentNode of
        None \<Rightarrow> True
      | Some parent \<Rightarrow> parent < length h \<and> node_kind (obj_fields (h ! parent)) = Folder)"

definition build_inv :: "ScanItem set \<Rightarrow> build_state \<Rightarrow> bool" where
  "build_inv items st \<longleftrightarrow>
     heap_ok (heap st) \<and>
     (\<forall>a \<in> set (rootNodes st). a < length (heap st)) \<and>
     (\<forall>k a. treeMap st k = Some a \<longrightarrow>
        a < length (heap st) \<and> node_id (obj_fields (heap st ! a)) = k) \<and>
     (\<forall>a < length (heap st). node_ok items (obj_fields (heap st ! a)))"

definition child_sizes_sum :: "TreeNode list \<Rightarrow> int" where
  "child_sizes_sum cs = foldl (\<lambda>total child. total + size_or_zero (node_size (props child))) 0 cs"

text \<open>What every node of a built tree satisfies.\<close>

definition built_node :: "ScanItem set \<Rightarrow> TreeNode \<Rightarrow> bool" where
  "built_node items n \<longleftrightarrow>
     (case node_kind (props n) of
        Folder \<Rightarrow>
          node_size (props n) = Present (if children n = [] then 0 else child_sizes_sum (children n))
      | NodeModules \<Rightarrow>
          children n = [] \<and>
          (\<exists>item \<in> items. node_path (props n) = node_modules_path item \<and>
                           node_size (props n) = item_size item))"



definition leaf_paths :: "TreeNode list \<Rightarrow> jsstring set" where
  "leaf_paths tree =
     {node_path (props n) | n. n \<in> set (all_nodes tree) \<and> node_kind (props n) = NodeModules}"



text \<open>
  Modelled from the spec: the scanner that returns the scan items is not among the
  sources. Its contract (section 4.1, rule 2, and section 4.2 of the specification) is
  that the contents of a matched \<open>node_modules\<close> directory are not searched for further
  matches, so no match it returns lies inside the \<open>node_modules\<close> directory of a match
  it returns. \<open>inside_match x n\<close> says that the project of \<open>x\<close> is the \<open>node_modules\<close>
  directory of \<open>n\<close> or lies below it; the paths are compared part by part, split the way
  \<open>buildTreeFromResults\<close> splits them.
\<close>

definition inside_match :: "ScanItem \<Rightarrow> ScanItem \<Rightarrow> bool" where
  "inside_match x n \<longleftrightarrow>
     (let dir = split_path (node_modules_path n)
      in take (length dir) (split_path (project_path x)) = dir)"

definition no_nested_matches :: "ScanItem set \<Rightarrow> bool" where
  "no_nested_matches items \<longleftrightarrow> (\<forall>x \<in> items. \<forall>n \<in> items. \<not> inside_match x n)"



section \<open>Concrete states used below\<close>

definition item_a :: ScanItem where
  "item_a = \<lparr>project_path = js ''/r/a'', node_modules_path = js ''/r/a/node_modules'',
              item_size = Present 1000\<rparr>"

definition item_b :: ScanItem where
  "item_b = \<lparr>project_path = js ''/r/b'', node_modules_path = js ''/r/b/node_modules'',
              item_size = Undefined\<rparr>"

definition drive_c :: DriveInfo where
  "drive_c = \<lparr>drive_path = js ''C:'' @ [0x5C], drive_name = js ''Local Disk (C:)''\<rparr>"

definition drive_d :: DriveInfo where
  "drive_d = \<lparr>drive_path = js ''D:'' @ [0x5C], drive_name = js ''Data (D:)''\<rparr>"

definition item_c :: ScanItem where
  "item_c = \<lparr>project_path = js ''/r/a/packages/x'',
              node_modules_path = js ''/r/a/packages/x/node_modules'',
              item_size = Present 24\<rparr>"

definition fs_a :: filesystem where
  "fs_a = [js ''/r/a'' \<mapsto> Directory, js ''/r/a/node_modules'' \<mapsto> Directory,
           js ''/r/a/package.json'' \<mapsto> File]"

definition item_r :: ScanItem where
  "item_r = \<lparr>project_path = js ''/r'', node_modules_path = js ''/r/node_modules'',
              item_size = Undefined\<rparr>"

definition item_n :: ScanItem where
  "item_n = \<lparr>project_path = js ''/r/node_modules/pkg'',
              node_modules_path = js ''/r/node_modules/pkg/node_modules'',
              item_size = Undefined\<rparr>"

definition folder_paths :: "TreeNode list \<Rightarrow> jsstring list" where
  "folder_paths tree =
     map (\<lambda>n. node_path (props n)) (filter (\<lambda>n. node_kind (props n) = Folder) (all_nodes tree))"

text \<open>A heap with one object, a folder without children.\<close>

definition childless_heap :: heap where
  "childless_heap =
     [\<lparr>obj_fields =
         \<lparr>node_id = js ''folder-r'', node_name = js ''r'', node_path = js ''/r'',
          node_kind = Folder, node_size = Present 0, isExpanded = True,
          isSelected = False, level = 1\<rparr>,
       obj_children = []\<rparr>]"

text \<open>
  A run of the component: the scan resolves with \<open>results\<close>, the tree is rebuilt,
  "Select All" and "Delete Selected" are clicked.
\<close>

definition run_select_all :: "ScanItem list \<Rightarrow> AppState option" where
  "run_select_all results =
     map_option (\<lambda>s. handleBulkDelete (selectAllNodeModules s))
       (scanResults_effect compare_units (handleStartScan_resolved results state0))"

definition requests_of :: "AppState \<Rightarrow> command list" where
  "requests_of s = invoked (snd (confirmDelete s))"

definition shown_folder_paths :: "AppState \<Rightarrow> jsstring list" where
  "shown_folder_paths s = folder_paths (treeData s)"

section \<open>Claims about starting a scan\<close>

text \<open>
  C3. A start request while a scan is running is rejected: \<open>handleStartScan\<close> returns the
  state as it was (results, progress, tree, selection and timestamps included) and
  invokes nothing.
\<close>

theorem start_while_scanning_rejected:
  "isScanning s \<Longrightarrow> handleStartScan now s = (s, [])"
  by (simp add: handleStartScan_def)

theorem start_while_scanning_rejected_witness:
  "isScanning (state0\<lparr>isScanning := True, scanResults := [item_a]\<rparr>) \<and>
   handleStartScan 7 (state0\<lparr>isScanning := True, scanResults := [item_a]\<rparr>)
     = (state0\<lparr>isScanning := True, scanResults := [item_a]\<rparr>, [])"
  using start_while_scanning_rejected [of "state0\<lparr>isScanning := True, scanResults := [item_a]\<rparr>" 7]
  by simp

text \<open>
  C4. A start request whose root list is empty (a folder input that is empty once
  trimmed, no drive chosen, or no drive listed for the entire computer) is rejected
  before any work begins: the state is returned as it was and no command is invoked.
\<close>

theorem empty_roots_rejected:
  assumes "(scanScope s = ScopeFolder \<and> trim (selectedFolder s) = []) \<or>
           (scanScope s = ScopeDrive \<and> selectedDrive s = []) \<or>
           (scanScope s = ScopeEntire \<and> drives s = [])"
  shows "fst (handleStartScan now s) = s \<and> invoked (snd (handleStartScan now s)) = []"
  using assms
  by (auto simp: handleStartScan_def scan_roots_def invoked_def)

theorem empty_roots_rejected_witness:
  "trim (selectedFolder (state0\<lparr>selectedFolder := js ''  ''\<rparr>)) = [] \<and>
   fst (handleStartScan 7 (state0\<lparr>selectedFolder := js ''  ''\<rparr>))
     = state0\<lparr>selectedFolder := js ''  ''\<rparr> \<and>
   invoked (snd (handleStartScan 7 (state0\<lparr>selectedFolder := js ''  ''\<rparr>))) = [] \<and>
   drives (state0\<lparr>scanScope := ScopeEntire\<rparr>) = [] \<and>
   fst (handleStartScan 7 (state0\<lparr>scanScope := ScopeEntire\<rparr>))
     = state0\<lparr>scanScope := ScopeEntire\<rparr> \<and>
   invoked (snd (handleStartScan 7 (state0\<lparr>scanScope := ScopeEntire\<rparr>))) = [] \<and>
   selectedDrive (state0\<lparr>scanScope := ScopeDrive\<rparr>) = [] \<and>
   fst (handleStartScan 7 (state0\<lparr>scanScope := ScopeDrive\<rparr>))
     = state0\<lparr>scanScope := ScopeDrive\<rparr> \<and>
   invoked (snd (handleStartScan 7 (state0\<lparr>scanScope := ScopeDrive\<rparr>))) = []"
proof -
  have t: "trim (js ''  '') = []"
    by (simp add: trim_def js_def isWhiteSpace_def)
  have h1: "scanScope (state0\<lparr>selectedFolder := js ''  ''\<rparr>) = ScopeFolder \<and>
            trim (selectedFolder (state0\<lparr>selectedFolder := js ''  ''\<rparr>)) = []"
    using t by (simp add: state0_def)
  have h2: "scanScope (state0\<lparr>scanScope := ScopeEntire\<rparr>) = ScopeEntire \<and>
            drives (state0\<lparr>scanScope := ScopeEntire\<rparr>) = []"
    by (simp add: state0_def)
  have h3: "scanScope (state0\<lparr>scanScope := ScopeDrive\<rparr>) = ScopeDrive \<and>
            selectedDrive (state0\<lparr>scanScope := ScopeDrive\<rparr>) = []"
    by (simp add: state0_def)
  show ?thesis
    using h1 h2 h3
      empty_roots_rejected [of "state0\<lparr>selectedFolder := js ''  ''\<rparr>" 7]
      empty_roots_rejected [of "state0\<lparr>scanScope := ScopeEntire\<rparr>" 7]
      empty_roots_rejected [of "state0\<lparr>scanScope := ScopeDrive\<rparr>" 7]
    by simp
qed

text \<open>
  C5. When no scan is running, the roots passed to \<open>start_scan_with_progress\<close> are:
  for the scope "entire", the path of every drive of the list that \<open>list_drives\<close>
  returned, one root per drive, in the listed order; for the scope "folder", the single
  trimmed folder path; for the scope "drive", the single selected drive path.
\<close>

theorem roots_by_scope:
  assumes "\<not> isScanning s"
  shows "(scanScope s = ScopeEntire \<and> ds \<noteq> [] \<longrightarrow>
            invoked (snd (handleStartScan now (loadDrives_resolved ds s)))
              = [start_scan_with_progress (map drive_path ds) (includeSizes s)]) \<and>
         (scanScope s = ScopeEntire \<and> drives s \<noteq> [] \<longrightarrow>
            invoked (snd (handleStartScan now s))
              = [start_scan_with_progress (map drive_path (drives s)) (includeSizes s)]) \<and>
         (scanScope s = ScopeFolder \<and> trim (selectedFolder s) \<noteq> [] \<longrightarrow>
            invoked (snd (handleStartScan now s))
              = [start_scan_with_progress [trim (selectedFolder s)] (includeSizes s)]) \<and>
         (scanScope s = ScopeDrive \<and> selectedDrive s \<noteq> [] \<longrightarrow>
            invoked (snd (handleStartScan now s))
              = [start_scan_with_progress [selectedDrive s] (includeSizes s)])"
  using assms
  by (simp add: handleStartScan_def scan_roots_def invoked_def loadDrives_resolved_def)

theorem roots_by_scope_witness:
  "invoked (snd (handleStartScan 7 (loadDrives_resolved [drive_c, drive_d]
      (state0\<lparr>scanScope := ScopeEntire\<rparr>))))
     = [start_scan_with_progress [js ''C:'' @ [0x5C], js ''D:'' @ [0x5C]] False] \<and>
   invoked (snd (handleStartScan 7 (state0\<lparr>selectedFolder := js '' /r/a ''\<rparr>)))
     = [start_scan_with_progress [js ''/r/a''] False] \<and>
   invoked (snd (handleStartScan 7
      (state0\<lparr>scanScope := ScopeDrive, selectedDrive := js ''/mnt/d''\<rparr>)))
     = [start_scan_with_progress [js ''/mnt/d''] False]"
proof -
  have t: "trim (js '' /r/a '') = js ''/r/a''"
    by (simp add: trim_def js_def isWhiteSpace_def)
  have n: "\<not> isScanning (state0\<lparr>scanScope := ScopeEntire\<rparr>)"
          "\<not> isScanning (state0\<lparr>selectedFolder := js '' /r/a ''\<rparr>)"
          "\<not> isScanning (state0\<lparr>scanScope := ScopeDrive, selectedDrive := js ''/mnt/d''\<rparr>)"
    by (simp_all add: state0_def)
  have s: "scanScope state0 = ScopeFolder" "includeSizes state0 = False"
          "js ''/r/a'' \<noteq> []" "js ''/mnt/d'' \<noteq> []"
    by (simp_all add: state0_def js_def)
  show ?thesis
    using t s
      roots_by_scope [OF n(1), of "[drive_c, drive_d]" 7]
      roots_by_scope [OF n(2), of "[]" 7]
      roots_by_scope [OF n(3), of "[]" 7]
    by (simp add: drive_c_def drive_d_def)
qed

section \<open>Claims about the progress listener\<close>

text \<open>
  C8. A \<open>scan_progress\<close> event whose completion flag is set ends the scanning state;
  a snapshot without the flag leaves \<open>isScanning\<close> as it was.
\<close>

theorem completion_flag_ends_scanning:
  "(is_complete progress \<longrightarrow> \<not> isScanning (fst (scan_progress_listener progress s))) \<and>
   (\<not> is_complete progress \<longrightarrow>
      isScanning (fst (scan_progress_listener progress s)) = isScanning s)"
  by (simp add: scan_progress_listener_def Let_def)

theorem completion_flag_ends_scanning_witness:
  "\<not> isScanning (fst (scan_progress_listener (initialProgress\<lparr>is_complete := True\<rparr>)
       (state0\<lparr>isScanning := True\<rparr>))) \<and>
   isScanning (fst (scan_progress_listener (initialProgress\<lparr>folders_scanned := 3\<rparr>)
       (state0\<lparr>isScanning := True\<rparr>)))"
  using
    completion_flag_ends_scanning [of "initialProgress\<lparr>is_complete := True\<rparr>"
      "state0\<lparr>isScanning := True\<rparr>"]
    completion_flag_ends_scanning [of "initialProgress\<lparr>folders_scanned := 3\<rparr>"
      "state0\<lparr>isScanning := True\<rparr>"]
  by (simp add: initialProgress_def)

section \<open>Claims about the caller's view after a deletion\<close>

text \<open>
  C1 says that the paths deleted with success leave the scan results and that all other
  matches stay. The filter of \<open>confirmDelete\<close> is built from the paths that failed: on a
  batch where \<open>/r/a/node_modules\<close> was deleted and \<open>/r/b/node_modules\<close> was not, the
  deleted match stays in the list and the match that is still on disk leaves it.
\<close>

theorem confirmDelete_keeps_deleted_drops_failed:
  "scanResults (fst (confirmDelete_resolved
      [\<lparr>result_path = js ''/r/a/node_modules'', success = True, error_text = None\<rparr>,
       \<lparr>result_path = js ''/r/b/node_modules'', success = False,
        error_text = Some (js ''locked'')\<rparr>]
      (state0\<lparr>scanResults := [item_a, item_b]\<rparr>)))
   = [item_a]"
  by (simp add: confirmDelete_resolved_def confirmDelete_finally_def failedPaths_def
      Let_def state0_def item_a_def item_b_def js_def)

section \<open>Claims about displaying sizes and progress\<close>

lemma show_nat_digits: "show_nat n \<noteq> [] \<and> list_all is_digit (show_nat n)"
proof (induction n rule: show_nat.induct)
  case (1 n)
  show ?case
  proof (cases "n < 10")
    case True
    then show ?thesis by (subst (1 2) show_nat.simps) (simp add: is_digit_def)
  next
    case False
    have "n mod 10 < 10" by simp
    then have "is_digit (48 + n mod 10)" unfolding is_digit_def by linarith
    with False 1 show ?thesis by (subst (1 2) show_nat.simps) simp
  qed
qed

lemma toFixed1_shape:
  "\<exists>ds d. toFixed1 x = (if x < 0 then js ''-'' else []) @ ds @ [46, d]
     \<and> ds \<noteq> [] \<and> list_all is_digit ds \<and> is_digit d"
proof -
  define m0 where "m0 = show_nat (nat \<lfloor>\<bar>x\<bar> * 10 + 1 / 2\<rfloor>)"
  define m where "m = (if length m0 \<le> 1 then js ''0'' @ m0 else m0)"
  have m0: "m0 \<noteq> []" "list_all is_digit m0"
    using show_nat_digits [of "nat \<lfloor>\<bar>x\<bar> * 10 + 1 / 2\<rfloor>"] by (simp_all add: m0_def)
  have "1 \<le> length m0"
    using m0(1) by (cases m0) auto
  then have len: "2 \<le> length m"
    by (auto simp: m_def js_def)
  have dig: "list_all is_digit m"
    using m0(2) by (simp add: m_def js_def is_digit_def)
  have tf: "toFixed1 x = (if x < 0 then js ''-'' else []) @ take (length m - 1) m @ js ''.''
              @ drop (length m - 1) m"
    by (simp add: toFixed1_def Let_def m_def m0_def)
  have "drop (length m - 1) m = [last m]"
    using len by (metis One_nat_def Suc_1 append_butlast_last_id append_eq_conv_conj
        length_butlast list.size(3) not_less_eq_eq zero_le)
  moreover have "take (length m - 1) m \<noteq> []" using len by auto
  moreover have "list_all is_digit (take (length m - 1) m)"
    using dig by (auto simp: list_all_iff dest: in_set_takeD)
  moreover have "is_digit (last m)"
    using dig len by (metis last_in_set list.size(3) list_all_iff not_numeral_le_zero)
  ultimately show ?thesis
    using tf by (auto simp: js_def)
qed

lemma scale_size_index: "unitIndex \<le> 4 \<Longrightarrow> snd (scale_size sz unitIndex) \<le> 4"
proof (induction sz unitIndex rule: scale_size.induct)
  case (1 sz unitIndex)
  then show ?case
    by (subst scale_size.simps) (auto simp: units_def)
qed

lemma scale_size_sign: "fst (scale_size sz unitIndex) < 0 \<longleftrightarrow> sz < 0"
proof (induction sz unitIndex rule: scale_size.induct)
  case (1 sz unitIndex)
  then show ?case
    by (subst scale_size.simps) auto
qed

lemma units_nth: "u \<le> 4 \<Longrightarrow> units ! u \<in> set units"
proof -
  assume "u \<le> 4"
  then have "u < length units" by (simp add: units_def)
  then show ?thesis by (rule nth_mem)
qed

text \<open>
  C6, amended. \<open>formatFileSize\<close> returns the placeholder U+2014 if and only if its
  input is absent (\<open>null\<close> or \<open>undefined\<close>). For every present byte count it returns a
  number with one decimal, a space and a unit; zero bytes gives \<open>0.0 B\<close>, so it never
  formats an absent size as it formats a size of zero. The tree view renders a size
  badge exactly for a size that is present and greater than zero.
\<close>

theorem formatFileSize_placeholder_iff_absent:
  "(formatFileSize bytes = [0x2014] \<longleftrightarrow> bytes = Null \<or> bytes = Undefined) \<and>
   (\<exists>ds d u. formatFileSize (Present b)
        = (if b < 0 then js ''-'' else []) @ ds @ [46, d, 32] @ u
      \<and> ds \<noteq> [] \<and> list_all is_digit ds \<and> is_digit d \<and> u \<in> set units) \<and>
   formatFileSize (Present 0) = js ''0.0 B'' \<and>
   formatFileSize (Present 0) \<noteq> formatFileSize Null \<and>
   formatFileSize (Present 0) \<noteq> formatFileSize Undefined \<and>
   (size_badge sz = None \<longleftrightarrow> \<not> (\<exists>n. sz = Present n \<and> 0 < n))"
proof -
  have badge: "size_badge sz = None \<longleftrightarrow> \<not> (\<exists>n. sz = Present n \<and> 0 < n)"
    by (cases sz) (simp_all add: size_badge_def)
  have shape: "\<exists>ds d u. formatFileSize (Present c)
        = (if c < 0 then js ''-'' else []) @ ds @ [46, d, 32] @ u
      \<and> ds \<noteq> [] \<and> list_all is_digit ds \<and> is_digit d \<and> u \<in> set units" for c
  proof -
    obtain sz u where su: "scale_size (of_int c) 0 = (sz, u)" by (cases "scale_size (of_int c) 0")
    have u: "units ! u \<in> set units"
      using scale_size_index [of 0 "of_int c"] su by (simp add: units_nth)
    have sg: "sz < 0 \<longleftrightarrow> c < 0"
      using scale_size_sign [of "of_int c" 0] su by simp
    obtain ds d where t: "toFixed1 sz = (if sz < 0 then js ''-'' else []) @ ds @ [46, d]"
      "ds \<noteq> []" "list_all is_digit ds" "is_digit d"
      using toFixed1_shape [of sz] by blast
    have "formatFileSize (Present c) = (if c < 0 then js ''-'' else []) @ ds @ [46, d, 32] @ units ! u"
      using su t(1) sg by (simp add: formatFileSize_def js_def)
    with t u show ?thesis by blast
  qed
  have zero: "formatFileSize (Present 0) = js ''0.0 B''" by code_simp
  have iff: "formatFileSize bytes = [0x2014] \<longleftrightarrow> bytes = Null \<or> bytes = Undefined"
  proof (cases bytes)
    case (Present c)
    obtain ds d u where "formatFileSize (Present c)
        = (if c < 0 then js ''-'' else []) @ ds @ [46, d, 32] @ u" and "ds \<noteq> []"
      using shape [of c] by blast
    then have "length (formatFileSize (Present c)) \<ge> 2" by simp
    then show ?thesis using Present by auto
  qed (simp_all add: formatFileSize_def)
  have "formatFileSize (Present 0) \<noteq> formatFileSize Null"
       "formatFileSize (Present 0) \<noteq> formatFileSize Undefined"
    using zero by (simp_all add: formatFileSize_def js_def)
  with shape [of b] zero iff badge show ?thesis by blast
qed

text \<open>
  C6 as stated ends: an absent size is never displayed the same way as a size of zero.
  In the tree view both are displayed the same way: no size badge is rendered for a
  size of zero, for \<open>undefined\<close> or for \<open>null\<close>.
\<close>

theorem zero_and_absent_sizes_render_alike:
  "size_badge (Present 0) = None \<and> size_badge Undefined = None \<and> size_badge Null = None"
  by (simp add: size_badge_def)

text \<open>
  C7 says that the displayed percentage never exceeds 100. The divisor is at least 1 in
  both places and the bar's width is capped by \<open>Math.min\<close>, but the percentage text
  beside it is not: with 3 folders scanned of an estimated 2, the bar is 100 wide and
  the text reads 150.
\<close>

theorem percentage_text_exceeds_100:
  "progressPercent (initialProgress\<lparr>folders_scanned := 3, total_folders_estimated := 2\<rparr>) = Some 150 \<and>
   progressBarWidth (initialProgress\<lparr>folders_scanned := 3, total_folders_estimated := 2\<rparr>) = Some 100"
  by code_simp

lemma progressBarWidth_le_100: "progressBarWidth p = Some w \<Longrightarrow> w \<le> 100"
  by (auto simp: progressBarWidth_def split: if_splits)


section \<open>Claims about the deletion executor\<close>

lemma delete_one_refused:
  "basename p \<noteq> js ''node_modules'' \<Longrightarrow>
   delete_one trash fs p = (fs, refused p (js ''not a node_modules directory''))"
  by (simp add: delete_one_def)

lemma delete_one_path: "result_path (snd (delete_one trash fs p)) = p"
  by (simp add: delete_one_def refused_def split: sum.splits)

lemma delete_one_success:
  "success (snd (delete_one trash fs p)) \<Longrightarrow> basename p = js ''node_modules''"
  by (auto simp: delete_one_def refused_def split: if_splits sum.splits)

lemma deletion_executor_paths:
  "map result_path (snd (deletion_executor trash fs paths)) = paths"
proof (induction paths arbitrary: fs)
  case Nil
  show ?case by simp
next
  case (Cons q paths)
  obtain fs1 r where d: "delete_one trash fs q = (fs1, r)" by (cases "delete_one trash fs q")
  then have "result_path r = q" using delete_one_path [of trash fs q] by simp
  with d Cons [of fs1] show ?case by (auto split: prod.splits)
qed

lemma deletion_executor_success:
  "r \<in> set (snd (deletion_executor trash fs paths)) \<Longrightarrow> success r \<Longrightarrow>
   basename (result_path r) = js ''node_modules''"
proof (induction paths arbitrary: fs)
  case Nil
  then show ?case by simp
next
  case (Cons q paths)
  obtain fs1 r1 where d: "delete_one trash fs q = (fs1, r1)" by (cases "delete_one trash fs q")
  from Cons.prems d have "r = r1 \<or> r \<in> set (snd (deletion_executor trash fs1 paths))"
    by (auto split: prod.splits)
  then show ?case
  proof
    assume "r = r1"
    then show ?thesis
      using d Cons.prems(2) delete_one_success [of trash fs q] delete_one_path [of trash fs q]
      by simp
  next
    assume "r \<in> set (snd (deletion_executor trash fs1 paths))"
    then show ?thesis using Cons.IH Cons.prems(2) by blast
  qed
qed

lemma deletion_executor_valid_only:
  "fst (deletion_executor trash fs paths)
     = fst (deletion_executor trash fs (filter (\<lambda>q. basename q = js ''node_modules'') paths))"
proof (induction paths arbitrary: fs)
  case Nil
  show ?case by simp
next
  case (Cons q paths)
  show ?case
  proof (cases "basename q = js ''node_modules''")
    case False
    then show ?thesis
      using Cons.IH [of fs] delete_one_refused [OF False, of trash fs]
      by (auto split: prod.splits)
  next
    case True
    obtain fs1 r1 where d: "delete_one trash fs q = (fs1, r1)" by (cases "delete_one trash fs q")
    with True Cons.IH [of fs1] show ?thesis
      by (auto split: prod.splits)
  qed
qed

text \<open>
  C2. A path whose basename is not exactly \<open>node_modules\<close> is refused, whatever the
  caller sent: its step leaves the file system as it was and its result has
  \<open>success = false\<close>. In a batch there is one result per path, every result for such a
  path is a failure, and the file system after the batch is the one the batch of the
  paths named \<open>node_modules\<close> alone would have left.
\<close>

theorem other_basenames_refused:
  "(basename p \<noteq> js ''node_modules'' \<longrightarrow>
      fst (delete_one trash fs p) = fs \<and> \<not> success (snd (delete_one trash fs p))) \<and>
   map result_path (snd (deletion_executor trash fs paths)) = paths \<and>
   (\<forall>r \<in> set (snd (deletion_executor trash fs paths)).
      basename (result_path r) \<noteq> js ''node_modules'' \<longrightarrow> \<not> success r) \<and>
   fst (deletion_executor trash fs paths)
     = fst (deletion_executor trash fs (filter (\<lambda>q. basename q = js ''node_modules'') paths))"
proof -
  have "fst (delete_one trash fs p) = fs \<and> \<not> success (snd (delete_one trash fs p))"
    if "basename p \<noteq> js ''node_modules''"
    using delete_one_refused [OF that, of trash fs] by (simp add: refused_def)
  moreover have "\<forall>r \<in> set (snd (deletion_executor trash fs paths)).
                   basename (result_path r) \<noteq> js ''node_modules'' \<longrightarrow> \<not> success r"
    using deletion_executor_success [of _ trash fs paths] by blast
  ultimately show ?thesis
    using deletion_executor_paths [of trash fs paths]
      deletion_executor_valid_only [of trash fs paths]
    by blast
qed

theorem other_basenames_refused_witness:
  "basename (js ''/r/a'') \<noteq> js ''node_modules'' \<and>
   fst (delete_one simple_trash fs_a (js ''/r/a'')) = fs_a \<and>
   \<not> success (snd (delete_one simple_trash fs_a (js ''/r/a''))) \<and>
   map success (snd (deletion_executor simple_trash fs_a [js ''/r/a'', js ''/r/a/node_modules'']))
     = [False, True] \<and>
   fst (deletion_executor simple_trash fs_a [js ''/r/a'', js ''/r/a/node_modules''])
     = fst (deletion_executor simple_trash fs_a [js ''/r/a/node_modules''])"
proof -
  have h: "basename (js ''/r/a'') \<noteq> js ''node_modules''"
    by (simp add: basename_def js_def is_separator_def)
  have f: "filter (\<lambda>q. basename q = js ''node_modules'') [js ''/r/a'', js ''/r/a/node_modules'']
             = [js ''/r/a/node_modules'']"
    by (simp add: basename_def js_def is_separator_def)
  have e: "map success (snd (deletion_executor simple_trash fs_a [js ''/r/a'', js ''/r/a/node_modules'']))
     = [False, True]"
    by (simp add: delete_one_def basename_def js_def is_separator_def fs_a_def simple_trash_def
        refused_def)
  show ?thesis
    using h f e other_basenames_refused [of "js ''/r/a''" simple_trash fs_a
        "[js ''/r/a'', js ''/r/a/node_modules'']"]
    by simp
qed

section \<open>The heap while the tree is built\<close>

lemma no_size_kind: "no_size f' = no_size f \<Longrightarrow> node_kind f' = node_kind f"
  by (drule arg_cong [where f = node_kind]) (simp add: no_size_def)

lemma no_size_update [simp]: "no_size (f\<lparr>node_size := v\<rparr>) = no_size f"
  by (simp add: no_size_def)

lemma same_shape_refl: "same_shape h h"
  by (simp add: same_shape_def)

lemma same_shape_kind:
  "same_shape h h' \<Longrightarrow> a < length h \<Longrightarrow>
   node_kind (obj_fields (h' ! a)) = node_kind (obj_fields (h ! a))"
proof -
  assume "same_shape h h'" "a < length h"
  then have "no_size (obj_fields (h' ! a)) = no_size (obj_fields (h ! a))"
    unfolding same_shape_def by blast
  then show ?thesis by (rule no_size_kind)
qed

lemma same_shape_children:
  "same_shape h h' \<Longrightarrow> a < length h \<Longrightarrow> obj_children (h' ! a) = obj_children (h ! a)"
  by (simp add: same_shape_def)

lemma same_shape_length: "same_shape h h' \<Longrightarrow> length h' = length h"
  by (simp add: same_shape_def)

lemma same_shape_trans:
  assumes "same_shape h h1" "same_shape h1 h2"
  shows "same_shape h h2"
proof -
  have l1: "length h1 = length h" using assms(1) by (rule same_shape_length)
  have l2: "length h2 = length h1" using assms(2) by (rule same_shape_length)
  have "obj_children (h2 ! a) = obj_children (h ! a) \<and>
        no_size (obj_fields (h2 ! a)) = no_size (obj_fields (h ! a)) \<and>
        (\<not> (node_kind (obj_fields (h ! a)) = Folder \<and> obj_children (h ! a) \<noteq> []) \<longrightarrow>
           h2 ! a = h ! a)" if a: "a < length h" for a
  proof (intro conjI impI)
    have a1: "a < length h1" using a l1 by simp
    from assms(1) a have s1:
      "obj_children (h1 ! a) = obj_children (h ! a)"
      "no_size (obj_fields (h1 ! a)) = no_size (obj_fields (h ! a))"
      "\<not> (node_kind (obj_fields (h ! a)) = Folder \<and> obj_children (h ! a) \<noteq> []) \<longrightarrow> h1 ! a = h ! a"
      unfolding same_shape_def by blast+
    from assms(2) a1 have s2:
      "obj_children (h2 ! a) = obj_children (h1 ! a)"
      "no_size (obj_fields (h2 ! a)) = no_size (obj_fields (h1 ! a))"
      "\<not> (node_kind (obj_fields (h1 ! a)) = Folder \<and> obj_children (h1 ! a) \<noteq> []) \<longrightarrow> h2 ! a = h1 ! a"
      unfolding same_shape_def by blast+
    show "obj_children (h2 ! a) = obj_children (h ! a)"
      using s1(1) s2(1) by (rule trans [rotated])
    show "no_size (obj_fields (h2 ! a)) = no_size (obj_fields (h ! a))"
      using s1(2) s2(2) by (rule trans [rotated])
    assume n: "\<not> (node_kind (obj_fields (h ! a)) = Folder \<and> obj_children (h ! a) \<noteq> [])"
    then have e: "h1 ! a = h ! a" using s1(3) by blast
    then have "\<not> (node_kind (obj_fields (h1 ! a)) = Folder \<and> obj_children (h1 ! a) \<noteq> [])"
      using n by simp
    then have "h2 ! a = h1 ! a" using s2(3) by blast
    then show "h2 ! a = h ! a" using e by (rule trans)
  qed
  then show ?thesis unfolding same_shape_def using l1 l2 by (intro conjI allI impI) simp_all
qed

lemma heap_ok_child:
  "heap_ok h \<Longrightarrow> a < length h \<Longrightarrow> c \<in> set (obj_children (h ! a)) \<Longrightarrow> a < c \<and> c < length h"
  unfolding heap_ok_def by blast

lemma heap_ok_leaf:
  "heap_ok h \<Longrightarrow> a < length h \<Longrightarrow> node_kind (obj_fields (h ! a)) = NodeModules \<Longrightarrow>
   obj_children (h ! a) = []"
  unfolding heap_ok_def by blast

lemma heap_okI:
  assumes "\<And>a c. a < length h \<Longrightarrow> c \<in> set (obj_children (h ! a)) \<Longrightarrow> a < c \<and> c < length h"
    and "\<And>a. a < length h \<Longrightarrow> node_kind (obj_fields (h ! a)) = NodeModules \<Longrightarrow>
           obj_children (h ! a) = []"
  shows "heap_ok h"
  unfolding heap_ok_def using assms by blast

lemma same_shape_unchanged:
  "same_shape h h' \<Longrightarrow> a < length h \<Longrightarrow>
   \<not> (node_kind (obj_fields (h ! a)) = Folder \<and> obj_children (h ! a) \<noteq> []) \<Longrightarrow> h' ! a = h ! a"
  unfolding same_shape_def by blast

lemma same_shape_heap_ok:
  assumes s: "same_shape h h'" and ok: "heap_ok h"
  shows "heap_ok h'"
proof (rule heap_okI)
  fix a c assume "a < length h'" and c: "c \<in> set (obj_children (h' ! a))"
  then have a: "a < length h" using same_shape_length [OF s] by simp
  have "c \<in> set (obj_children (h ! a))"
    using c same_shape_children [OF s a] by simp
  then have "a < c \<and> c < length h" using ok a by (rule heap_ok_child [rotated 2])
  then show "a < c \<and> c < length h'" using same_shape_length [OF s] by simp
next
  fix a assume "a < length h'" and k: "node_kind (obj_fields (h' ! a)) = NodeModules"
  then have a: "a < length h" using same_shape_length [OF s] by simp
  have "node_kind (obj_fields (h ! a)) = NodeModules"
    using k same_shape_kind [OF s a] by simp
  then have "obj_children (h ! a) = []" using ok a by (rule heap_ok_leaf [rotated 2])
  then show "obj_children (h' ! a) = []" using same_shape_children [OF s a] by simp
qed

lemma sum_child_sizes_cong:
  "(\<And>c. c \<in> set cs \<Longrightarrow> node_size (obj_fields (h' ! c)) = node_size (obj_fields (h ! c))) \<Longrightarrow>
   sum_child_sizes h' cs = sum_child_sizes h cs"
  unfolding sum_child_sizes_def by (rule foldl_cong) simp_all

lemma set_size_length [simp]: "length (set_size a v h) = length h"
  by (simp add: set_size_def)

lemma set_size_other [simp]: "c \<noteq> a \<Longrightarrow> set_size a v h ! c = h ! c"
  by (simp add: set_size_def)

lemma set_size_same:
  "a < length h \<Longrightarrow>
   set_size a v h ! a = (h ! a)\<lparr>obj_fields := (obj_fields (h ! a))\<lparr>node_size := Present v\<rparr>\<rparr>"
  by (simp add: set_size_def)

lemma set_size_id:
  "node_size (obj_fields (h ! a)) = Present v \<Longrightarrow> set_size a v h = h"
proof -
  assume v: "node_size (obj_fields (h ! a)) = Present v"
  have "(obj_fields (h ! a))\<lparr>node_size := Present v\<rparr> = obj_fields (h ! a)"
    using v by (cases "obj_fields (h ! a)") simp
  then show ?thesis by (simp add: set_size_def)
qed

lemma same_shape_set_size:
  assumes "a < length h" "node_kind (obj_fields (h ! a)) = Folder" "obj_children (h ! a) \<noteq> []"
  shows "same_shape h (set_size a v h)"
  unfolding same_shape_def
proof (intro conjI allI impI)
  show "length (set_size a v h) = length h" by simp
next
  fix c assume c: "c < length h"
  show "obj_children (set_size a v h ! c) = obj_children (h ! c)"
    using assms(1) by (cases "c = a") (simp_all add: set_size_same)
  show "no_size (obj_fields (set_size a v h ! c)) = no_size (obj_fields (h ! c))"
    using assms(1) by (cases "c = a") (simp_all add: set_size_same)
next
  fix c assume "c < length h"
    and "\<not> (node_kind (obj_fields (h ! c)) = Folder \<and> obj_children (h ! c) \<noteq> [])"
  then have "c \<noteq> a" using assms by auto
  then show "set_size a v h ! c = h ! c" by simp
qed

lemma closedD:
  "closed h S \<Longrightarrow> a \<in> S \<Longrightarrow> a < length h \<and> summed h a \<and> set (obj_children (h ! a)) \<subseteq> S"
  unfolding closed_def by blast

lemma closedI:
  "(\<And>a. a \<in> S \<Longrightarrow> a < length h \<and> summed h a \<and> set (obj_children (h ! a)) \<subseteq> S) \<Longrightarrow> closed h S"
  unfolding closed_def by blast

lemma closed_insert_leaf:
  assumes "closed h S" "a < length h" "obj_children (h ! a) = []"
  shows "closed h (insert a S)"
proof (rule closedI)
  fix c assume "c \<in> insert a S"
  then consider "c = a" | "c \<in> S" by blast
  then show "c < length h \<and> summed h c \<and> set (obj_children (h ! c)) \<subseteq> insert a S"
  proof cases
    case 1
    then show ?thesis using assms(2,3) by (simp add: summed_def)
  next
    case 2
    then show ?thesis using closedD [OF assms(1) 2] by blast
  qed
qed

text \<open>The write of \<open>calculateFolderSizes\<close>, after the children have been summed.\<close>

lemma closed_set_size:
  assumes ok: "heap_ok h" and cl: "closed h S" and a: "a < length h"
    and cs: "set (obj_children (h ! a)) \<subseteq> S"
    and fo: "node_kind (obj_fields (h ! a)) = Folder" "obj_children (h ! a) \<noteq> []"
  shows "closed (set_size a (sum_child_sizes h (obj_children (h ! a))) h) (insert a S)"
proof (cases "a \<in> S")
  case True
  then have "node_size (obj_fields (h ! a)) = Present (sum_child_sizes h (obj_children (h ! a)))"
    using closedD [OF cl, of a] fo by (simp add: summed_def)
  then have "set_size a (sum_child_sizes h (obj_children (h ! a))) h = h"
    by (rule set_size_id)
  moreover have "insert a S = S" using True by blast
  ultimately show ?thesis using cl by simp
next
  case False
  define v where "v = sum_child_sizes h (obj_children (h ! a))"
  define h2 where "h2 = set_size a v h"
  have sh: "same_shape h h2"
    unfolding h2_def using a fo by (rule same_shape_set_size)
  have notin: "a \<notin> set (obj_children (h ! c))" if "c \<in> insert a S" for c
  proof (cases "c = a")
    case True
    then show ?thesis using heap_ok_child [OF ok a, of a] by blast
  next
    case c: False
    then have "c \<in> S" using that by blast
    then show ?thesis using closedD [OF cl, of c] False by blast
  qed
  have sums: "sum_child_sizes h2 (obj_children (h ! c)) = sum_child_sizes h (obj_children (h ! c))"
    if "c \<in> insert a S" for c
  proof (rule sum_child_sizes_cong)
    fix x assume "x \<in> set (obj_children (h ! c))"
    then have "x \<noteq> a" using notin [OF that] by blast
    then show "node_size (obj_fields (h2 ! x)) = node_size (obj_fields (h ! x))"
      by (simp add: h2_def)
  qed
  have "closed h2 (insert a S)"
  proof (rule closedI)
    fix c assume c: "c \<in> insert a S"
    have cl': "c < length h"
      using c a closedD [OF cl, of c] by blast
    have ch: "obj_children (h2 ! c) = obj_children (h ! c)"
      using sh cl' by (rule same_shape_children)
    have sub: "set (obj_children (h ! c)) \<subseteq> insert a S"
      using c cs closedD [OF cl, of c] by blast
    have "summed h2 c"
    proof (cases "c = a")
      case True
      have "node_size (obj_fields (h2 ! a)) = Present v"
        using a by (simp add: h2_def set_size_same)
      moreover have "sum_child_sizes h2 (obj_children (h ! a)) = v"
        using sums [of a] by (simp add: v_def)
      ultimately show ?thesis using True ch by (simp add: summed_def)
    next
      case False
      then have "h2 ! c = h ! c" by (simp add: h2_def)
      moreover have "summed h c" using c False closedD [OF cl, of c] by blast
      ultimately show ?thesis using sums [OF c] by (simp add: summed_def)
    qed
    then show "c < length h2 \<and> summed h2 c \<and> set (obj_children (h2 ! c)) \<subseteq> insert a S"
      using cl' ch sub by (simp add: h2_def)
  qed
  then show ?thesis by (simp add: h2_def v_def)
qed

lemma calculateFolderSizes_returns:
  "heap_ok h \<Longrightarrow> closed h S \<Longrightarrow> (\<forall>a \<in> set nodes. b \<le> a \<and> a < length h) \<Longrightarrow>
   length h - b = n \<Longrightarrow>
   \<exists>h' S'. calculateFolderSizes h nodes = Some h' \<and> same_shape h h' \<and> closed h' S' \<and>
           S \<union> set nodes \<subseteq> S'"
proof (induction n arbitrary: h S nodes b rule: less_induct)
  case (less n)
  show ?case using less.prems
  proof (induction nodes arbitrary: h S)
    case Nil
    have "calculateFolderSizes h [] = Some h"
      by (subst calculateFolderSizes.simps) simp
    then show ?case using Nil.prems(2) same_shape_refl [of h] by auto
  next
    case (Cons node rest)
    have nd: "b \<le> node" "node < length h" using Cons.prems(3) by simp_all
    have rs: "\<forall>a \<in> set rest. b \<le> a \<and> a < length h" using Cons.prems(3) by simp
    show ?case
    proof (cases "node_kind (obj_fields (h ! node)) = Folder \<and> obj_children (h ! node) \<noteq> []")
      case False
      then have "obj_children (h ! node) = []"
        using heap_ok_leaf [OF Cons.prems(1) nd(2)] by (cases "node_kind (obj_fields (h ! node))") auto
      then have cl: "closed h (insert node S)"
        using Cons.prems(2) nd(2) by (rule closed_insert_leaf [rotated 2])
      obtain h' S' where r: "calculateFolderSizes h rest = Some h'" "same_shape h h'"
          "closed h' S'" "insert node S \<union> set rest \<subseteq> S'"
        using Cons.IH [OF Cons.prems(1) cl rs Cons.prems(4)] by blast
      have "calculateFolderSizes h (node # rest) = Some h'"
        using False r(1) by (subst calculateFolderSizes.simps) auto
      then show ?thesis using r by auto
    next
      case True
      define cs where "cs = obj_children (h ! node)"
      have csb: "\<forall>a \<in> set cs. Suc node \<le> a \<and> a < length h"
        using heap_ok_child [OF Cons.prems(1) nd(2)] by (fastforce simp: cs_def)
      have lt: "length h - Suc node < n" using nd Cons.prems(4) by linarith
      obtain h1 S1 where r1: "calculateFolderSizes h cs = Some h1" "same_shape h h1"
          "closed h1 S1" "S \<union> set cs \<subseteq> S1"
        using less.IH [OF lt Cons.prems(1,2) csb refl] by blast
      have ok1: "heap_ok h1" using r1(2) Cons.prems(1) by (rule same_shape_heap_ok)
      have l1: "length h1 = length h" using r1(2) by (rule same_shape_length)
      have n1: "node < length h1" using nd l1 by simp
      have c1: "obj_children (h1 ! node) = cs"
        using same_shape_children [OF r1(2) nd(2)] by (simp add: cs_def)
      have k1: "node_kind (obj_fields (h1 ! node)) = Folder"
        using same_shape_kind [OF r1(2) nd(2)] True by simp
      define h2 where "h2 = set_size node (sum_child_sizes h1 (obj_children (h1 ! node))) h1"
      have cl2: "closed h2 (insert node S1)"
        unfolding h2_def
        using ok1 r1(3) n1 _ k1
      proof (rule closed_set_size)
        show "set (obj_children (h1 ! node)) \<subseteq> S1" using r1(4) c1 by simp
        show "obj_children (h1 ! node) \<noteq> []" using c1 True by (simp add: cs_def)
      qed
      have sh2: "same_shape h1 h2"
        unfolding h2_def using n1 k1
      proof (rule same_shape_set_size)
        show "obj_children (h1 ! node) \<noteq> []" using c1 True by (simp add: cs_def)
      qed
      have sh: "same_shape h h2" using r1(2) sh2 by (rule same_shape_trans)
      have ok2: "heap_ok h2" using sh Cons.prems(1) by (rule same_shape_heap_ok)
      have l2: "length h2 = length h" using sh by (rule same_shape_length)
      have rs2: "\<forall>a \<in> set rest. b \<le> a \<and> a < length h2" using rs l2 by simp
      have n2: "length h2 - b = n" using Cons.prems(4) l2 by simp
      obtain h' S' where r: "calculateFolderSizes h2 rest = Some h'" "same_shape h2 h'"
          "closed h' S'" "insert node S1 \<union> set rest \<subseteq> S'"
        using Cons.IH [OF ok2 cl2 rs2 n2] by blast
      have "calculateFolderSizes h (node # rest) = Some h'"
        using True r(1) r1(1) by (subst calculateFolderSizes.simps) (simp add: cs_def h2_def)
      moreover have "same_shape h h'" using sh r(2) by (rule same_shape_trans)
      moreover have "S \<union> set (node # rest) \<subseteq> S'" using r(4) r1(4) by auto
      ultimately show ?thesis using r(3) by blast
    qed
  qed
qed

lemma all_nodes_Cons: "all_nodes (t # ts) = nodes_of t @ all_nodes ts"
  by (simp add: all_nodes_def)

lemma nodes_of_all_nodes: "nodes_of (TreeNode f cs) = TreeNode f cs # all_nodes cs"
  by (simp add: all_nodes_def)

lemma tree_values_returns:
  "heap_ok h \<Longrightarrow> closed h S \<Longrightarrow> (\<forall>a \<in> set nodes. b \<le> a \<and> a \<in> S) \<Longrightarrow>
   length h - b = n \<Longrightarrow>
   \<exists>ts. tree_values h nodes = Some ts \<and>
        map props ts = map (\<lambda>a. obj_fields (h ! a)) nodes \<and>
        (\<forall>t \<in> set (all_nodes ts). represents h S t)"
proof (induction n arbitrary: nodes b rule: less_induct)
  case (less n)
  show ?case using less.prems(3)
  proof (induction nodes)
    case Nil
    have "tree_values h [] = Some []"
      by (subst tree_values.simps) simp
    then show ?case by (simp add: all_nodes_def)
  next
    case (Cons node rest)
    have nd: "b \<le> node" "node \<in> S" using Cons.prems by simp_all
    have nl: "node < length h" using closedD [OF less.prems(2) nd(2)] by blast
    have rs: "\<forall>a \<in> set rest. b \<le> a \<and> a \<in> S" using Cons.prems by simp
    define cs where "cs = obj_children (h ! node)"
    have "\<forall>a \<in> set cs. Suc node \<le> a"
      using heap_ok_child [OF less.prems(1) nl] by (fastforce simp: cs_def)
    moreover have "set cs \<subseteq> S"
      using closedD [OF less.prems(2) nd(2)] by (simp add: cs_def)
    ultimately have csb: "\<forall>a \<in> set cs. Suc node \<le> a \<and> a \<in> S" by blast
    have lt: "length h - Suc node < n" using nd nl less.prems(4) by linarith
    obtain kids where k: "tree_values h cs = Some kids"
        "map props kids = map (\<lambda>a. obj_fields (h ! a)) cs"
        "\<forall>t \<in> set (all_nodes kids). represents h S t"
      using less.IH [OF lt less.prems(1,2) csb refl] by blast
    obtain ts where r: "tree_values h rest = Some ts"
        "map props ts = map (\<lambda>a. obj_fields (h ! a)) rest"
        "\<forall>t \<in> set (all_nodes ts). represents h S t"
      using Cons.IH [OF rs] by blast
    define t where "t = TreeNode (obj_fields (h ! node)) kids"
    have "tree_values h (node # rest) = Some (t # ts)"
      using k(1) r(1) by (subst tree_values.simps) (simp add: cs_def t_def)
    moreover have "map props (t # ts) = map (\<lambda>a. obj_fields (h ! a)) (node # rest)"
      using r(2) by (simp add: t_def)
    moreover have "represents h S t"
      unfolding represents_def using nd(2) k(2) by (auto simp: t_def cs_def)
    then have "\<forall>x \<in> set (all_nodes (t # ts)). represents h S x"
      using k(3) r(3)
      by (auto simp: all_nodes_Cons t_def nodes_of_all_nodes simp del: nodes_of.simps)
    ultimately show ?case by blast
  qed
qed

lemma build_invD:
  assumes "build_inv items st"
  shows "heap_ok (heap st)"
    and "\<And>a. a \<in> set (rootNodes st) \<Longrightarrow> a < length (heap st)"
    and "\<And>k a. treeMap st k = Some a \<Longrightarrow>
           a < length (heap st) \<and> node_id (obj_fields (heap st ! a)) = k"
    and "\<And>a. a < length (heap st) \<Longrightarrow> node_ok items (obj_fields (heap st ! a))"
  using assms unfolding build_inv_def by blast+

lemma build_invI:
  assumes "heap_ok (heap st)"
    and "\<And>a. a \<in> set (rootNodes st) \<Longrightarrow> a < length (heap st)"
    and "\<And>k a. treeMap st k = Some a \<Longrightarrow>
           a < length (heap st) \<and> node_id (obj_fields (heap st ! a)) = k"
    and "\<And>a. a < length (heap st) \<Longrightarrow> node_ok items (obj_fields (heap st ! a))"
  shows "build_inv items st"
  unfolding build_inv_def using assms by blast

lemma prefixes_differ: "js ''folder-'' @ p \<noteq> js ''node_modules-'' @ q"
  by (simp add: js_def)

lemma folder_id_is_folder:
  assumes "build_inv items st" "treeMap st (js ''folder-'' @ p) = Some a"
  shows "parent_ok (heap st) (Some a)"
proof -
  have a: "a < length (heap st)" "node_id (obj_fields (heap st ! a)) = js ''folder-'' @ p"
    using build_invD(3) [OF assms] by simp_all
  have "node_ok items (obj_fields (heap st ! a))" using build_invD(4) [OF assms(1) a(1)] .
  then have "node_kind (obj_fields (heap st ! a)) = Folder"
    using a(2) prefixes_differ [of p]
    by (cases "node_kind (obj_fields (heap st ! a))") (auto simp: node_ok_def)
  then show ?thesis using a(1) by (simp add: parent_ok_def)
qed

lemma push_child_length [simp]: "length (push_child parent child h) = length h"
  by (simp add: push_child_def)

lemma push_child_fields [simp]: "obj_fields (push_child parent child h ! a) = obj_fields (h ! a)"
  by (cases "parent < length h"; cases "a = parent")
    (simp_all add: push_child_def list_update_beyond)

lemma push_child_children:
  "parent < length h \<Longrightarrow>
   obj_children (push_child parent child h ! a)
     = (if a = parent then obj_children (h ! a) @ [child] else obj_children (h ! a))"
  by (simp add: push_child_def)

lemma heap_ok_append:
  assumes "heap_ok h" "obj_children obj = []"
  shows "heap_ok (h @ [obj])"
proof (rule heap_okI)
  fix a c assume a: "a < length (h @ [obj])" and c: "c \<in> set (obj_children ((h @ [obj]) ! a))"
  show "a < c \<and> c < length (h @ [obj])"
  proof (cases "a < length h")
    case True
    then have "c \<in> set (obj_children (h ! a))" using c by (simp add: nth_append)
    then have "a < c \<and> c < length h" using assms(1) True by (rule heap_ok_child [rotated 2])
    then show ?thesis by simp
  next
    case False
    then have "a = length h" using a by simp
    then show ?thesis using c assms(2) by simp
  qed
next
  fix a assume a: "a < length (h @ [obj])"
    and k: "node_kind (obj_fields ((h @ [obj]) ! a)) = NodeModules"
  show "obj_children ((h @ [obj]) ! a) = []"
  proof (cases "a < length h")
    case True
    then have "node_kind (obj_fields (h ! a)) = NodeModules" using k by (simp add: nth_append)
    then have "obj_children (h ! a) = []" using assms(1) True by (rule heap_ok_leaf [rotated 2])
    then show ?thesis using True by (simp add: nth_append)
  next
    case False
    then have "a = length h" using a by simp
    then show ?thesis using assms(2) by simp
  qed
qed

lemma heap_ok_push_child:
  assumes ok: "heap_ok h" and p: "parent < child" "child < length h"
    and k: "node_kind (obj_fields (h ! parent)) = Folder"
  shows "heap_ok (push_child parent child h)"
proof (rule heap_okI)
  have pl: "parent < length h" using p by simp
  fix a c assume a: "a < length (push_child parent child h)"
    and c: "c \<in> set (obj_children (push_child parent child h ! a))"
  have al: "a < length h" using a by simp
  show "a < c \<and> c < length (push_child parent child h)"
  proof (cases "c \<in> set (obj_children (h ! a))")
    case True
    then show ?thesis using heap_ok_child [OF ok al] by simp
  next
    case False
    then have "a = parent \<and> c = child"
      using c by (auto simp: push_child_children [OF pl] split: if_splits)
    then show ?thesis using p by simp
  qed
next
  have pl: "parent < length h" using p by simp
  fix a assume a: "a < length (push_child parent child h)"
    and "node_kind (obj_fields (push_child parent child h ! a)) = NodeModules"
  then have al: "a < length h" and ka: "node_kind (obj_fields (h ! a)) = NodeModules" by simp_all
  then have "a \<noteq> parent" using k by auto
  then show "obj_children (push_child parent child h ! a) = []"
    using heap_ok_leaf [OF ok al ka] by (simp add: push_child_children [OF pl])
qed

lemma inv_alloc:
  assumes inv: "build_inv items st" and c: "obj_children obj = []"
    and n: "node_ok items (obj_fields obj)"
  shows "build_inv items
           (st\<lparr>heap := heap st @ [obj],
               treeMap := (treeMap st)(node_id (obj_fields obj) \<mapsto> length (heap st))\<rparr>)"
proof (rule build_invI)
  let ?st = "st\<lparr>heap := heap st @ [obj],
               treeMap := (treeMap st)(node_id (obj_fields obj) \<mapsto> length (heap st))\<rparr>"
  show "heap_ok (heap ?st)"
    using heap_ok_append [OF build_invD(1) [OF inv] c] by simp
  show "a < length (heap ?st)" if "a \<in> set (rootNodes ?st)" for a
    using build_invD(2) [OF inv, of a] that by simp
  show "a < length (heap ?st) \<and> node_id (obj_fields (heap ?st ! a)) = k"
    if "treeMap ?st k = Some a" for k a
  proof (cases "k = node_id (obj_fields obj)")
    case True
    then show ?thesis using that by auto
  next
    case False
    then have "treeMap st k = Some a" using that by simp
    then show ?thesis using build_invD(3) [OF inv, of k a] by (simp add: nth_append)
  qed
  show "node_ok items (obj_fields (heap ?st ! a))" if "a < length (heap ?st)" for a
  proof (cases "a < length (heap st)")
    case True
    then show ?thesis using build_invD(4) [OF inv True] by (simp add: nth_append)
  next
    case False
    then have "a = length (heap st)" using that by simp
    then show ?thesis using n by simp
  qed
qed

lemma inv_push:
  assumes inv: "build_inv items st" and p: "parent < child" "child < length (heap st)"
    and k: "node_kind (obj_fields (heap st ! parent)) = Folder"
  shows "build_inv items (st\<lparr>heap := push_child parent child (heap st)\<rparr>)"
proof (rule build_invI)
  let ?st = "st\<lparr>heap := push_child parent child (heap st)\<rparr>"
  show "heap_ok (heap ?st)"
    using heap_ok_push_child [OF build_invD(1) [OF inv] p k] by simp
  show "a < length (heap ?st)" if "a \<in> set (rootNodes ?st)" for a
    using build_invD(2) [OF inv, of a] that by simp
  show "a < length (heap ?st) \<and> node_id (obj_fields (heap ?st ! a)) = k"
    if "treeMap ?st k = Some a" for k a
    using build_invD(3) [OF inv, of k a] that by simp
  show "node_ok items (obj_fields (heap ?st ! a))" if "a < length (heap ?st)" for a
    using build_invD(4) [OF inv, of a] that by simp
qed

lemma inv_root:
  assumes inv: "build_inv items st" and c: "child < length (heap st)"
  shows "build_inv items (st\<lparr>rootNodes := rootNodes st @ [child]\<rparr>)"
proof (rule build_invI)
  let ?st = "st\<lparr>rootNodes := rootNodes st @ [child]\<rparr>"
  show "heap_ok (heap ?st)" using build_invD(1) [OF inv] by simp
  show "a < length (heap ?st)" if "a \<in> set (rootNodes ?st)" for a
    using build_invD(2) [OF inv, of a] that c by auto
  show "a < length (heap ?st) \<and> node_id (obj_fields (heap ?st ! a)) = k"
    if "treeMap ?st k = Some a" for k a
    using build_invD(3) [OF inv, of k a] that by simp
  show "node_ok items (obj_fields (heap ?st ! a))" if "a < length (heap ?st)" for a
    using build_invD(4) [OF inv, of a] that by simp
qed

lemma new_folder_inv:
  assumes inv: "build_inv items st" and par: "parent_ok (heap st) parentNode"
  shows "build_inv items (new_folder parts i part (js ''folder-'' @ cp) parentNode st)"
    and "treeMap (new_folder parts i part (js ''folder-'' @ cp) parentNode st) (js ''folder-'' @ cp)
           = Some (length (heap st))"
proof -
  define obj where "obj =
     \<lparr>obj_fields =
        \<lparr>node_id = js ''folder-'' @ cp, node_name = part,
         node_path = join_slash (take (i + 1) parts),
         node_kind = Folder, node_size = Present 0, isExpanded = i < 2,
         isSelected = False, level = i\<rparr>,
      obj_children = []\<rparr>"
  define st1 where "st1 = st\<lparr>heap := heap st @ [obj],
      treeMap := (treeMap st)(node_id (obj_fields obj) \<mapsto> length (heap st))\<rparr>"
  have id: "node_id (obj_fields obj) = js ''folder-'' @ cp" by (simp add: obj_def)
  have nf: "new_folder parts i part (js ''folder-'' @ cp) parentNode st =
     (case parentNode of
        Some parent \<Rightarrow> st1\<lparr>heap := push_child parent (length (heap st)) (heap st1)\<rparr>
      | None \<Rightarrow> st1\<lparr>rootNodes := rootNodes st1 @ [length (heap st)]\<rparr>)"
    by (cases parentNode) (simp_all add: new_folder_def Let_def st1_def obj_def)
  have inv1: "build_inv items st1"
    unfolding st1_def using inv
  proof (rule inv_alloc)
    show "obj_children obj = []" by (simp add: obj_def)
    show "node_ok items (obj_fields obj)" by (auto simp: obj_def node_ok_def)
  qed
  have h1: "heap st1 = heap st @ [obj]" by (simp add: st1_def)
  show "build_inv items (new_folder parts i part (js ''folder-'' @ cp) parentNode st)"
  proof (cases parentNode)
    case None
    have "build_inv items (st1\<lparr>rootNodes := rootNodes st1 @ [length (heap st)]\<rparr>)"
      using inv1 by (rule inv_root) (simp add: h1)
    then show ?thesis using None nf by simp
  next
    case (Some parent)
    then have p: "parent < length (heap st)" "node_kind (obj_fields (heap st ! parent)) = Folder"
      using par by (simp_all add: parent_ok_def)
    have "build_inv items (st1\<lparr>heap := push_child parent (length (heap st)) (heap st1)\<rparr>)"
      using inv1
    proof (rule inv_push)
      show "parent < length (heap st)" using p(1) .
      show "length (heap st) < length (heap st1)" by (simp add: h1)
      show "node_kind (obj_fields (heap st1 ! parent)) = Folder"
        using p by (simp add: h1 nth_append)
    qed
    then show ?thesis using Some nf by simp
  qed
  show "treeMap (new_folder parts i part (js ''folder-'' @ cp) parentNode st) (js ''folder-'' @ cp)
           = Some (length (heap st))"
    using nf id by (cases parentNode) (simp_all add: st1_def)
qed

lemma build_folders_inv:
  "build_inv items st \<Longrightarrow> parent_ok (heap st) parentNode \<Longrightarrow>
   build_folders parts i rest cur parentNode st = (parent', st') \<Longrightarrow>
   build_inv items st' \<and> parent_ok (heap st') parent'"
proof (induction rest arbitrary: i cur parentNode st)
  case Nil
  then show ?case by simp
next
  case (Cons part rest)
  show ?case
  proof (cases "part = []")
    case True
    then have "build_folders parts (i + 1) rest cur parentNode st = (parent', st')"
      using Cons.prems(3) by simp
    then show ?thesis using Cons.IH [OF Cons.prems(1,2)] by blast
  next
    case False
    define cur' where "cur' = (if cur \<noteq> [] then cur @ js ''/'' @ part else part)"
    define st1 where "st1 = (if treeMap st (js ''folder-'' @ cur') = None
         then new_folder parts i part (js ''folder-'' @ cur') parentNode st else st)"
    have step: "build_folders parts (i + 1) rest cur' (treeMap st1 (js ''folder-'' @ cur')) st1
                  = (parent', st')"
    proof -
      have "build_folders parts i (part # rest) cur parentNode st
              = build_folders parts (i + 1) rest cur' (treeMap st1 (js ''folder-'' @ cur')) st1"
        unfolding cur'_def st1_def by (simp only: build_folders.simps Let_def False if_False)
      then show ?thesis using Cons.prems(3) by simp
    qed
    have inv1: "build_inv items st1"
      using Cons.prems(1) new_folder_inv(1) [OF Cons.prems(1,2)] by (simp add: st1_def)
    obtain a where a: "treeMap st1 (js ''folder-'' @ cur') = Some a"
      using new_folder_inv(2) [OF Cons.prems(1,2), of parts i part cur']
      by (cases "treeMap st (js ''folder-'' @ cur')") (auto simp: st1_def)
    have "parent_ok (heap st1) (Some a)" using inv1 a by (rule folder_id_is_folder)
    then show ?thesis using Cons.IH [OF inv1 _ step [unfolded a]] a by simp
  qed
qed

lemma add_item_inv:
  assumes inv: "build_inv items st" and it: "item \<in> items"
  shows "build_inv items (add_item item st)"
proof -
  define parts where "parts = split_path (project_path item)"
  obtain parent st1 where b: "build_folders parts 0 parts [] None st = (parent, st1)"
    by (cases "build_folders parts 0 parts [] None st")
  have r: "build_inv items st1" "parent_ok (heap st1) parent"
    using build_folders_inv [OF inv _ b] by (simp_all add: parent_ok_def)
  define obj where "obj =
     \<lparr>obj_fields =
        \<lparr>node_id = js ''node_modules-'' @ node_modules_path item, node_name = js ''node_modules'',
         node_path = node_modules_path item, node_kind = NodeModules,
         node_size = item_size item, isExpanded = False, isSelected = False,
         level = length parts\<rparr>,
      obj_children = []\<rparr>"
  define st2 where "st2 = st1\<lparr>heap := heap st1 @ [obj],
      treeMap := (treeMap st1)(node_id (obj_fields obj) \<mapsto> length (heap st1))\<rparr>"
  have ai: "add_item item st =
     (case parent of
        Some p \<Rightarrow> st2\<lparr>heap := push_child p (length (heap st1)) (heap st2)\<rparr>
      | None \<Rightarrow> st2)"
    using b by (cases parent) (simp_all add: add_item_def Let_def parts_def [symmetric] st2_def obj_def)
  have inv2: "build_inv items st2"
    unfolding st2_def using r(1)
  proof (rule inv_alloc)
    show "obj_children obj = []" by (simp add: obj_def)
    show "node_ok items (obj_fields obj)" using it by (auto simp: obj_def node_ok_def)
  qed
  have h2: "heap st2 = heap st1 @ [obj]" by (simp add: st2_def)
  show ?thesis
  proof (cases parent)
    case None
    then show ?thesis using ai inv2 by simp
  next
    case (Some p)
    then have p: "p < length (heap st1)" "node_kind (obj_fields (heap st1 ! p)) = Folder"
      using r(2) by (simp_all add: parent_ok_def)
    have "build_inv items (st2\<lparr>heap := push_child p (length (heap st1)) (heap st2)\<rparr>)"
      using inv2
    proof (rule inv_push)
      show "p < length (heap st1)" using p(1) .
      show "length (heap st1) < length (heap st2)" by (simp add: h2)
      show "node_kind (obj_fields (heap st2 ! p)) = Folder"
        using p by (simp add: h2 nth_append)
    qed
    then show ?thesis using Some ai by simp
  qed
qed

lemma add_items_inv:
  "build_inv items st \<Longrightarrow> set xs \<subseteq> items \<Longrightarrow>
   build_inv items (foldl (\<lambda>st item. add_item item st) st xs)"
proof (induction xs arbitrary: st)
  case Nil
  then show ?case by simp
next
  case (Cons x xs)
  have "build_inv items (add_item x st)" using Cons.prems by (auto intro: add_item_inv)
  then show ?case using Cons.IH Cons.prems(2) by simp
qed

lemma empty_build_inv: "build_inv items empty_build"
  by (rule build_invI) (simp_all add: empty_build_def heap_ok_def)

lemma set_insert_by: "set (insert_by cmp x ys) = insert x (set ys)"
  by (induction ys) auto

lemma set_sort_by: "set (sort_by cmp xs) = set xs"
  by (induction xs) (simp_all add: sort_by_def set_insert_by)

lemma child_sizes_sum_heap:
  assumes "map props cs = map (\<lambda>c. obj_fields (h ! c)) refs"
  shows "child_sizes_sum cs = sum_child_sizes h refs"
proof -
  have "child_sizes_sum cs = foldl (\<lambda>total f. total + size_or_zero (node_size f)) 0 (map props cs)"
    by (simp add: child_sizes_sum_def foldl_map)
  also have "\<dots> = foldl (\<lambda>total f. total + size_or_zero (node_size f)) 0
                     (map (\<lambda>c. obj_fields (h ! c)) refs)"
    using assms by simp
  also have "\<dots> = sum_child_sizes h refs"
    by (simp add: sum_child_sizes_def foldl_map)
  finally show ?thesis .
qed

lemma buildTreeFromResults_nodes:
  "\<exists>tree. buildTreeFromResults localeCompare results = Some tree \<and>
          (\<forall>n \<in> set (all_nodes tree). built_node (set results) n)"
proof -
  define sorted where
    "sorted = sort_by (\<lambda>a b. localeCompare (project_path a) (project_path b)) results"
  define st where "st = foldl (\<lambda>st item. add_item item st) empty_build sorted"
  have inv: "build_inv (set results) st"
    unfolding st_def by (rule add_items_inv [OF empty_build_inv]) (simp add: sorted_def set_sort_by)
  have ok: "heap_ok (heap st)" using build_invD(1) [OF inv] .
  have roots: "\<forall>a \<in> set (rootNodes st). 0 \<le> a \<and> a < length (heap st)"
    using build_invD(2) [OF inv] by simp
  have "closed (heap st) {}" by (simp add: closed_def)
  then obtain h' S' where c: "calculateFolderSizes (heap st) (rootNodes st) = Some h'"
      "same_shape (heap st) h'" "closed h' S'" "set (rootNodes st) \<subseteq> S'"
    using calculateFolderSizes_returns [OF ok _ roots, of "{}" "length (heap st)"] by auto
  have ok': "heap_ok h'" using c(2) ok by (rule same_shape_heap_ok)
  have roots': "\<forall>a \<in> set (rootNodes st). 0 \<le> a \<and> a \<in> S'" using c(4) by auto
  obtain tree where t: "tree_values h' (rootNodes st) = Some tree"
      "\<forall>n \<in> set (all_nodes tree). represents h' S' n"
    using tree_values_returns [OF ok' c(3) roots' refl] by blast
  have b: "buildTreeFromResults localeCompare results = Some tree"
    using c(1) t(1) by (simp add: buildTreeFromResults_def Let_def sorted_def st_def)
  have "built_node (set results) n" if n: "n \<in> set (all_nodes tree)" for n
  proof -
    obtain a where a: "a \<in> S'" "props n = obj_fields (h' ! a)"
        "map props (children n) = map (\<lambda>c. obj_fields (h' ! c)) (obj_children (h' ! a))"
      using t(2) n unfolding represents_def by blast
    have al': "a < length h'" and su: "summed h' a" using closedD [OF c(3) a(1)] by simp_all
    have al: "a < length (heap st)" using al' same_shape_length [OF c(2)] by simp
    have k: "node_kind (obj_fields (h' ! a)) = node_kind (obj_fields (heap st ! a))"
      using c(2) al by (rule same_shape_kind)
    have ch: "obj_children (h' ! a) = obj_children (heap st ! a)"
      using c(2) al by (rule same_shape_children)
    have len: "length (children n) = length (obj_children (h' ! a))"
      using a(3) by (metis length_map)
    have nok: "node_ok (set results) (obj_fields (heap st ! a))"
      using build_invD(4) [OF inv al] .
    show ?thesis
    proof (cases "node_kind (obj_fields (heap st ! a)) = Folder \<and> obj_children (heap st ! a) \<noteq> []")
      case True
      then have "node_size (obj_fields (h' ! a)) = Present (sum_child_sizes h' (obj_children (h' ! a)))"
        using su k ch by (simp add: summed_def)
      moreover have "children n \<noteq> []" using True len ch by auto
      ultimately show ?thesis
        using True k a(2) child_sizes_sum_heap [OF a(3)] by (simp add: built_node_def)
    next
      case False
      then have same: "h' ! a = heap st ! a" using c(2) al by (rule same_shape_unchanged [rotated 2])
      show ?thesis
      proof (cases "node_kind (obj_fields (heap st ! a))")
        case Folder
        then have "obj_children (heap st ! a) = []" using False by simp
        then have "children n = []" using len ch by simp
        then show ?thesis using Folder nok a(2) same by (simp add: built_node_def node_ok_def)
      next
        case NodeModules
        then have "obj_children (heap st ! a) = []" using ok al by (rule heap_ok_leaf [rotated 2])
        then have "children n = []" using len ch by simp
        then show ?thesis using NodeModules nok a(2) same by (simp add: built_node_def node_ok_def)
      qed
    qed
  qed
  then show ?thesis using b by blast
qed










lemma set_set_add [simp]: "set (set_add x xs) = insert x (set xs)"
  by (auto simp: set_add_def)





section \<open>The paths of the folder nodes\<close>




















lemma folder_paths_Nil [simp]: "folder_paths [] = []"
  by (simp add: folder_paths_def all_nodes_def)






section \<open>The invariant of the transition system\<close>




lemma leaf_paths_Nil [simp]: "leaf_paths [] = {}"
  by (simp add: leaf_paths_def all_nodes_def)






section \<open>Claims about the tree\<close>

lemma hd_all_nodes: "tree \<noteq> [] \<Longrightarrow> hd tree \<in> set (all_nodes tree)"
  by (cases tree; cases "hd tree") (auto simp: all_nodes_def)

lemma last_all_nodes: "tree \<noteq> [] \<Longrightarrow> last (all_nodes tree) \<in> set (all_nodes tree)"
proof -
  assume "tree \<noteq> []"
  then have "all_nodes tree \<noteq> []"
    by (cases tree; cases "hd tree") (auto simp: all_nodes_def)
  then show ?thesis by (rule last_in_set)
qed

text \<open>
  C10. \<open>buildTreeFromResults\<close> returns, and in the tree it returns every folder node
  with at least one child has the sum of its children's sizes as its size, an absent
  size counting as 0; a folder node with no children has the size 0; every
  \<open>node_modules\<close> node is a leaf with the path and the size of a scan item. On every
  well-formed heap \<open>calculateFolderSizes\<close> returns and leaves alone each object that is
  not a folder with children: a folder without children keeps the size it was created
  with.
\<close>

theorem folder_size_is_sum_of_children:
  "(\<exists>tree. buildTreeFromResults localeCompare results = Some tree \<and>
     (\<forall>n \<in> set (all_nodes tree).
        (node_kind (props n) = Folder \<and> children n \<noteq> [] \<longrightarrow>
           node_size (props n) = Present (child_sizes_sum (children n))) \<and>
        (node_kind (props n) = Folder \<and> children n = [] \<longrightarrow> node_size (props n) = Present 0) \<and>
        (node_kind (props n) = NodeModules \<longrightarrow>
           children n = [] \<and>
           (\<exists>item \<in> set results. node_path (props n) = node_modules_path item \<and>
                                   node_size (props n) = item_size item)))) \<and>
   (heap_ok h \<and> (\<forall>a \<in> set nodes. a < length h) \<longrightarrow>
      (\<exists>h'. calculateFolderSizes h nodes = Some h' \<and> length h' = length h \<and>
         (\<forall>a < length h.
            \<not> (node_kind (obj_fields (h ! a)) = Folder \<and> obj_children (h ! a) \<noteq> []) \<longrightarrow>
            h' ! a = h ! a)))"
proof (intro conjI impI)
  obtain tree where t: "buildTreeFromResults localeCompare results = Some tree"
    "\<forall>n \<in> set (all_nodes tree). built_node (set results) n"
    using buildTreeFromResults_nodes [of localeCompare results] by blast
  have "(node_kind (props n) = Folder \<and> children n \<noteq> [] \<longrightarrow>
           node_size (props n) = Present (child_sizes_sum (children n))) \<and>
        (node_kind (props n) = Folder \<and> children n = [] \<longrightarrow> node_size (props n) = Present 0) \<and>
        (node_kind (props n) = NodeModules \<longrightarrow>
           children n = [] \<and>
           (\<exists>item \<in> set results. node_path (props n) = node_modules_path item \<and>
                                   node_size (props n) = item_size item))"
    if "n \<in> set (all_nodes tree)" for n
  proof -
    have "built_node (set results) n" using t(2) that by blast
    then show ?thesis by (cases "node_kind (props n)") (simp_all add: built_node_def)
  qed
  then show "\<exists>tree. buildTreeFromResults localeCompare results = Some tree \<and>
     (\<forall>n \<in> set (all_nodes tree).
        (node_kind (props n) = Folder \<and> children n \<noteq> [] \<longrightarrow>
           node_size (props n) = Present (child_sizes_sum (children n))) \<and>
        (node_kind (props n) = Folder \<and> children n = [] \<longrightarrow> node_size (props n) = Present 0) \<and>
        (node_kind (props n) = NodeModules \<longrightarrow>
           children n = [] \<and>
           (\<exists>item \<in> set results. node_path (props n) = node_modules_path item \<and>
                                   node_size (props n) = item_size item)))"
    using t(1) by blast
next
  assume a: "heap_ok h \<and> (\<forall>a \<in> set nodes. a < length h)"
  then have ok: "heap_ok h" and n: "\<forall>a \<in> set nodes. 0 \<le> a \<and> a < length h" by simp_all
  have "closed h {}" by (simp add: closed_def)
  then obtain h' where c: "calculateFolderSizes h nodes = Some h'" "same_shape h h'"
    using calculateFolderSizes_returns [OF ok _ n, of "{}" "length h"] by auto
  have "h' ! a = h ! a"
    if "a < length h" "\<not> (node_kind (obj_fields (h ! a)) = Folder \<and> obj_children (h ! a) \<noteq> [])" for a
    using c(2) that by (rule same_shape_unchanged)
  then show "\<exists>h'. calculateFolderSizes h nodes = Some h' \<and> length h' = length h \<and>
         (\<forall>a < length h.
            \<not> (node_kind (obj_fields (h ! a)) = Folder \<and> obj_children (h ! a) \<noteq> []) \<longrightarrow>
            h' ! a = h ! a)"
    using c(1) same_shape_length [OF c(2)] by blast
qed

theorem folder_size_is_sum_of_children_witness:
  "(\<exists>tree. buildTreeFromResults compare_units [item_c, item_a, item_b] = Some tree \<and>
     node_kind (props (hd tree)) = Folder \<and> children (hd tree) \<noteq> [] \<and>
     node_size (props (hd tree)) = Present (child_sizes_sum (children (hd tree))) \<and>
     node_size (props (hd tree)) = Present 1024 \<and>
     node_kind (props (last (all_nodes tree))) = NodeModules \<and>
     children (last (all_nodes tree)) = [] \<and>
     node_path (props (last (all_nodes tree))) = node_modules_path item_b \<and>
     node_size (props (last (all_nodes tree))) = item_size item_b) \<and>
   heap_ok childless_heap \<and>
   (\<exists>h'. calculateFolderSizes childless_heap [0] = Some h' \<and>
      node_kind (obj_fields (h' ! 0)) = Folder \<and> obj_children (h' ! 0) = [] \<and>
      node_size (obj_fields (h' ! 0)) = Present 0)"
proof -
  note w = folder_size_is_sum_of_children [of compare_units "[item_c, item_a, item_b]"
      childless_heap "[0]"]
  obtain tree where t: "buildTreeFromResults compare_units [item_c, item_a, item_b] = Some tree"
    and a: "\<forall>n \<in> set (all_nodes tree).
        (node_kind (props n) = Folder \<and> children n \<noteq> [] \<longrightarrow>
           node_size (props n) = Present (child_sizes_sum (children n))) \<and>
        (node_kind (props n) = Folder \<and> children n = [] \<longrightarrow> node_size (props n) = Present 0) \<and>
        (node_kind (props n) = NodeModules \<longrightarrow>
           children n = [] \<and>
           (\<exists>item \<in> set [item_c, item_a, item_b]. node_path (props n) = node_modules_path item \<and>
                                   node_size (props n) = item_size item))"
    using w by blast
  have "map_option (\<lambda>tree. (tree \<noteq> [], node_kind (props (hd tree)), children (hd tree) \<noteq> [],
                          node_size (props (hd tree)),
                          node_kind (props (last (all_nodes tree))),
                          node_path (props (last (all_nodes tree))),
                          node_size (props (last (all_nodes tree)))))
          (buildTreeFromResults compare_units [item_c, item_a, item_b])
        = Some (True, Folder, True, Present 1024, NodeModules, node_modules_path item_b,
                item_size item_b)"
    by code_simp
  then have e: "tree \<noteq> []" "node_kind (props (hd tree)) = Folder" "children (hd tree) \<noteq> []"
      "node_size (props (hd tree)) = Present 1024"
      "node_kind (props (last (all_nodes tree))) = NodeModules"
      "node_path (props (last (all_nodes tree))) = node_modules_path item_b"
      "node_size (props (last (all_nodes tree))) = item_size item_b"
    using t by simp_all
  have "hd tree \<in> set (all_nodes tree)" using e(1) by (rule hd_all_nodes)
  then have s: "node_size (props (hd tree)) = Present (child_sizes_sum (children (hd tree)))"
    using a e(2,3) by blast
  have "last (all_nodes tree) \<in> set (all_nodes tree)" using e(1) by (rule last_all_nodes)
  then have l: "children (last (all_nodes tree)) = []" using a e(5) by blast
  have ok: "heap_ok childless_heap" by (simp add: heap_ok_def childless_heap_def)
  have f: "\<not> (node_kind (obj_fields (childless_heap ! 0)) = Folder \<and>
               obj_children (childless_heap ! 0) \<noteq> [])"
      "node_kind (obj_fields (childless_heap ! 0)) = Folder"
      "obj_children (childless_heap ! 0) = []"
      "node_size (obj_fields (childless_heap ! 0)) = Present 0"
      "length childless_heap = 1"
    by (simp_all add: childless_heap_def)
  obtain h' where h: "calculateFolderSizes childless_heap [0] = Some h'"
      "\<forall>a < length childless_heap.
            \<not> (node_kind (obj_fields (childless_heap ! a)) = Folder \<and>
               obj_children (childless_heap ! a) \<noteq> []) \<longrightarrow>
            h' ! a = childless_heap ! a"
    using w ok f(5) by auto
  have "h' ! 0 = childless_heap ! 0" using h(2) f(1,5) by simp
  then have "node_kind (obj_fields (h' ! 0)) = Folder \<and> obj_children (h' ! 0) = [] \<and>
      node_size (obj_fields (h' ! 0)) = Present 0"
    using f by simp
  then show ?thesis using t e s l ok h(1) by blast
qed



text \<open>
  The hypothesis on the scan items is needed. The folder paths are joined from the
  parts of the project paths: for a result list with the matches \<open>/r/node_modules\<close>
  and \<open>/r/node_modules/pkg/node_modules\<close>, the second inside the first, the tree has a
  folder node with the path \<open>/r/node_modules\<close>, and the bulk request after "Select All"
  contains that path.
\<close>

lemma nested_results_share_a_path:
  "\<not> no_nested_matches (set [item_r, item_n]) \<and>
   map_option shown_folder_paths (run_select_all [item_r, item_n])
     = Some [js ''/r'', js ''/r/node_modules'', js ''/r/node_modules/pkg''] \<and>
   map_option requests_of (run_select_all [item_r, item_n])
     = Some [delete_node_modules [js ''/r/node_modules'', js ''/r/node_modules/pkg/node_modules'']]"
  by code_simp

end
